theory Spec2Isabelle
  imports Main
begin

section \<open>Data model\<close>

text \<open>
  A literal is a signed non-zero Python integer, a clause is a list of literals and a
  constraint set is a list of clauses, as in the notebook \<^verbatim>\<open>release.ipynb\<close>. Every
  failing \<^verbatim>\<open>assert\<close> of the source raises \<^verbatim>\<open>AssertionError\<close>; a raise is the \<open>Inl\<close>
  branch of the result.
\<close>

datatype error = AssertionError | IndexError | ValueError | TypeError

type_synonym clause = "int list"

type_synonym cnf = "clause list"

section \<open>Parity gate compiler: \<^verbatim>\<open>xor\<close> and \<^verbatim>\<open>pwt\<close>\<close>

text \<open>
  \<^verbatim>\<open>xor(y,x1,x2)\<close>: the assertion \<^verbatim>\<open>y * x1 * x2 != 0\<close>, then the four clauses. (The
  name \<open>xor\<close> is taken by the bit operation of HOL.)
\<close>

definition xor_clauses :: "int \<Rightarrow> int \<Rightarrow> int \<Rightarrow> error + cnf" where
  "xor_clauses y x1 x2 =
     (if \<not> (y * x1 * x2 \<noteq> 0) then Inl AssertionError
      else Inr [[- y, - x1, - x2], [- y, x1, x2], [y, x1, - x2], [y, - x1, x2]])"

text \<open>
  \<^verbatim>\<open>pwt(h,idx,num_vars)\<close>. The entry assertions are \<^verbatim>\<open>len(h)>0\<close>, \<^verbatim>\<open>idx>0\<close> and
  \<^verbatim>\<open>num_vars>0\<close>; the assertion on the elements of \<^verbatim>\<open>h\<close> compares the list \<^verbatim>\<open>h\<close>
  itself with 0 and so holds for every list of integers. The slices \<^verbatim>\<open>h[:2]\<close>,
  \<^verbatim>\<open>h[:len(h)//2]\<close> and \<^verbatim>\<open>h[len(h)//2:]\<close> are \<open>take\<close> and \<open>drop\<close>. The second
  recursive call of the last branch is made only when the first one has returned, and
  it receives the ancilla count of the first.
\<close>

function pwt :: "int list \<Rightarrow> int \<Rightarrow> int \<Rightarrow> error + (cnf \<times> int)" where
  "pwt h idx num_vars =
     (if \<not> (length h > 0) then Inl AssertionError
      else if \<not> (idx > 0) then Inl AssertionError
      else if \<not> (num_vars > 0) then Inl AssertionError
      else if length h = 2 then
        (case xor_clauses idx (h ! 0) (h ! 1) of
           Inl e \<Rightarrow> Inl e
         | Inr new_cons \<Rightarrow> Inr (new_cons, 0))
      else if length h = 3 then
        (case xor_clauses idx (h ! 2) (num_vars + 1) of
           Inl e \<Rightarrow> Inl e
         | Inr new_cons \<Rightarrow>
             (case pwt (take 2 h) (num_vars + 1) (num_vars + 1) of
                Inl e \<Rightarrow> Inl e
              | Inr (nc, na) \<Rightarrow> Inr (new_cons @ nc, 1 + na)))
      else
        (let v1 = num_vars + 1; v2 = num_vars + 2 in
         case xor_clauses idx v1 v2 of
           Inl e \<Rightarrow> Inl e
         | Inr new_cons \<Rightarrow>
             (case pwt (take (length h div 2) h) v1 (num_vars + 2) of
                Inl e \<Rightarrow> Inl e
              | Inr (nc, na) \<Rightarrow>
                  (case pwt (drop (length h div 2) h) v2 (num_vars + 2 + na) of
                     Inl e \<Rightarrow> Inl e
                   | Inr (nc', na') \<Rightarrow> Inr (new_cons @ nc @ nc', 2 + na + na')))))"
  by pat_completeness auto

text \<open>
  Every call terminates: the list gets shorter. For a list of one literal the first
  half is empty, its call raises, and the call on the second half (the whole list) is
  never made.
\<close>

termination
proof (relation "measure (\<lambda>(h, idx, num_vars). length h)", goal_cases)
  case 1
  show ?case by simp
next
  case (2 h idx num_vars new_cons)
  then show ?case by simp
next
  case (3 h idx num_vars x new_cons)
  then show ?case by simp
next
  case (4 h idx num_vars x new_cons r nc na)
  have "length h \<noteq> 1"
  proof
    assume "length h = 1"
    then have "take (length h div 2) h = []" by simp
    with 4 show False by (simp add: pwt.psimps)
  qed
  moreover from 4 have "0 < length h" by simp
  ultimately have "length h - length h div 2 < length h" by arith
  then show ?case by simp
qed

declare pwt.simps [simp del]

text \<open>The four clauses of \<open>xor_clauses\<close>, named for the proofs.\<close>

definition xor_list :: "int \<Rightarrow> int \<Rightarrow> int \<Rightarrow> cnf" where
  "xor_list y x1 x2 = [[- y, - x1, - x2], [- y, x1, x2], [y, x1, - x2], [y, - x1, x2]]"

section \<open>Meaning of clauses\<close>

text \<open>
  The notebook's own evaluators \<^verbatim>\<open>test_condition\<close>, \<^verbatim>\<open>bit_string_or\<close> and
  \<^verbatim>\<open>bit_string_satisfies\<close>: a positive literal reads its variable, a negative one
  the negation, a clause is a disjunction and a constraint set a conjunction. The bit
  string \<^verbatim>\<open>str\<close> is an assignment \<open>\<sigma>\<close> of the variables, \<open>\<sigma> v\<close> standing for
  \<^verbatim>\<open>str[v-1]\<close>.
\<close>

definition test_condition :: "int \<Rightarrow> (int \<Rightarrow> bool) \<Rightarrow> bool" where
  "test_condition constraint \<sigma> =
     (if constraint > 0 then \<sigma> constraint
      else if constraint = 0 then True
      else \<not> \<sigma> (- constraint))"

definition bit_string_or :: "clause \<Rightarrow> (int \<Rightarrow> bool) \<Rightarrow> bool" where
  "bit_string_or constraint \<sigma> = list_ex (\<lambda>cons. test_condition cons \<sigma>) constraint"

definition bit_string_satisfies :: "cnf \<Rightarrow> (int \<Rightarrow> bool) \<Rightarrow> bool" where
  "bit_string_satisfies constraints \<sigma> = list_all (\<lambda>cons. bit_string_or cons \<sigma>) constraints"

text \<open>The XOR of the truth values of a list of literals.\<close>

fun parity :: "int list \<Rightarrow> (int \<Rightarrow> bool) \<Rightarrow> bool" where
  "parity [] \<sigma> = False"
| "parity (l # ls) \<sigma> = (test_condition l \<sigma> \<noteq> parity ls \<sigma>)"

section \<open>Matrices\<close>

text \<open>
  A numpy matrix is the list of its rows; the matrices of the notebook are rectangular
  and have at least one row. The functions below are the numpy operations that
  \<^verbatim>\<open>sat_distance\<close> uses: \<^verbatim>\<open>np.shape(M)[1]\<close>, \<^verbatim>\<open>np.any\<close>, \<^verbatim>\<open>M - M*M\<close>, \<^verbatim>\<open>M.T\<close>, \<^verbatim>\<open>M @ N\<close>,
  \<^verbatim>\<open>np.mod(M,2)\<close>, \<^verbatim>\<open>M @ v\<close> and \<^verbatim>\<open>np.sum\<close>. The shape errors of numpy are outside the
  model: \<^verbatim>\<open>HX\<close> and \<^verbatim>\<open>HZ\<close> are matrices, and the services return results of the
  shapes their documentation gives.
\<close>

type_synonym matrix = "int list list"

definition ncols :: "matrix \<Rightarrow> nat" where
  "ncols M = (case M of [] \<Rightarrow> 0 | r # _ \<Rightarrow> length r)"

definition np_any :: "matrix \<Rightarrow> bool" where
  "np_any M = list_ex (list_ex (\<lambda>x. x \<noteq> 0)) M"

definition x_minus_xx :: "matrix \<Rightarrow> matrix" where
  "x_minus_xx M = map (map (\<lambda>x. x - x * x)) M"

definition dot :: "int list \<Rightarrow> int list \<Rightarrow> int" where
  "dot u v = sum_list (map2 (*) u v)"

definition column :: "matrix \<Rightarrow> nat \<Rightarrow> int list" where
  "column M j = map (\<lambda>r. r ! j) M"

definition mat_T :: "matrix \<Rightarrow> matrix" where
  "mat_T M = map (column M) [0..<ncols M]"

definition matmul :: "matrix \<Rightarrow> matrix \<Rightarrow> matrix" where
  "matmul M N = map (\<lambda>r. map (\<lambda>j. dot r (column N j)) [0..<ncols N]) M"

definition mod2 :: "matrix \<Rightarrow> matrix" where
  "mod2 M = map (map (\<lambda>x. x mod 2)) M"

definition mat_vec :: "matrix \<Rightarrow> int list \<Rightarrow> int list" where
  "mat_vec M v = map (\<lambda>r. dot r v) M"

section \<open>External services and what a call leaves behind\<close>

text \<open>
  The libraries the notebook imports are parameters of the model:
  \<^verbatim>\<open>reduced_row_echelon\<close> of \<^verbatim>\<open>ldpc.mod2\<close> (reduced matrix, rank, row transform, column
  transform), \<^verbatim>\<open>CardEnc.atmost(lits, bound, top_id).clauses\<close> of pysat, the solver
  \<^verbatim>\<open>Glucose42\<close> (\<^verbatim>\<open>solve\<close> with \<^verbatim>\<open>get_model\<close>: a model or none; \<^verbatim>\<open>get_proof\<close>) and
  \<^verbatim>\<open>drup.check_proof\<close>, which returns a result object whose outcome is valid or invalid,
  or raises.
\<close>

datatype drup_outcome = VALID | INVALID

record services =
  reduced_row_echelon :: "matrix \<Rightarrow> matrix \<times> nat \<times> matrix \<times> matrix"
  atmost :: "int list \<Rightarrow> int \<Rightarrow> int \<Rightarrow> cnf"
  solve :: "cnf \<Rightarrow> int list option"
  get_proof :: "cnf \<Rightarrow> string list option"
  drup_check_proof :: "cnf \<Rightarrow> cnf \<Rightarrow> error + drup_outcome"

text \<open>
  What a call does besides returning: the solver session it opens, queries and
  deletes, the proof check, and what it prints or displays. An exception ends the call
  and leaves the events so far.
\<close>

datatype event =
    New_solver cnf bool
  | Solve
  | Get_model
  | Get_proof
  | Delete_solver
  | Drup_check cnf cnf
  | Print string
  | Print_proof "string list option"
  | Display string int "int list"

text \<open>The value \<^verbatim>\<open>sat_distance\<close> returns: the model, or \<^verbatim>\<open>False\<close>.\<close>

datatype sat_out = Model "int list" | No_solution

section \<open>The proof check\<close>

text \<open>\<^verbatim>\<open>c.split(' ')\<close>: the pieces between single spaces.\<close>

fun split_on :: "char \<Rightarrow> string \<Rightarrow> string list" where
  "split_on d [] = [[]]"
| "split_on d (c # cs) =
     (if c = d then [] # split_on d cs
      else (c # hd (split_on d cs)) # tl (split_on d cs))"

text \<open>
  \<^verbatim>\<open>int(l)\<close> on a token of a proof line: an optional sign and decimal digits;
  \<^verbatim>\<open>ValueError\<close> otherwise. (Python also accepts surrounding blanks and underscores
  between digits, which the solver's proof lines do not contain.)
\<close>

fun digits_value :: "string \<Rightarrow> nat \<Rightarrow> nat option" where
  "digits_value [] acc = Some acc"
| "digits_value (c # cs) acc =
     (let k = (of_char c :: nat) in
      if 48 \<le> k \<and> k \<le> 57 then digits_value cs (10 * acc + (k - 48)) else None)"

definition py_int :: "string \<Rightarrow> error + int" where
  "py_int s =
     (let (neg, ds) = (case s of [] \<Rightarrow> (False, [])
                        | c # cs \<Rightarrow> if c = CHR ''-'' then (True, cs)
                                    else if c = CHR ''+'' then (False, cs) else (False, s))
      in if ds = [] then Inl ValueError
         else (case digits_value ds 0 of
                 None \<Rightarrow> Inl ValueError
               | Some k \<Rightarrow> Inr (if neg then - int k else int k)))"

fun map_err :: "('a \<Rightarrow> error + 'b) \<Rightarrow> 'a list \<Rightarrow> error + 'b list" where
  "map_err f [] = Inr []"
| "map_err f (x # xs) =
     (case f x of
        Inl e \<Rightarrow> Inl e
      | Inr y \<Rightarrow> (case map_err f xs of Inl e \<Rightarrow> Inl e | Inr ys \<Rightarrow> Inr (y # ys)))"

text \<open>
  \<^verbatim>\<open>[[int(l) for l in c.split(' ')[:-1]] for c in proof if c[0]!="d"]\<close>: the deletion
  lines are dropped, the final token (the closing 0) of every other line too; \<^verbatim>\<open>c[0]\<close>
  of an empty line raises \<^verbatim>\<open>IndexError\<close>.
\<close>

fun convert_proof :: "string list \<Rightarrow> error + cnf" where
  "convert_proof [] = Inr []"
| "convert_proof (c # cs) =
     (if c = [] then Inl IndexError
      else if hd c \<noteq> CHR ''d'' then
        (case map_err py_int (butlast (split_on CHR '' '' c)) of
           Inl e \<Rightarrow> Inl e
         | Inr cl \<Rightarrow> (case convert_proof cs of Inl e \<Rightarrow> Inl e | Inr cls \<Rightarrow> Inr (cl # cls)))
      else convert_proof cs)"

text \<open>
  \<^verbatim>\<open>check_proof(proof,cnf)\<close>: prints, converts, calls \<^verbatim>\<open>drup.check_proof\<close> and returns
  \<^verbatim>\<open>True\<close>. The result of \<^verbatim>\<open>drup.check_proof\<close> is not bound to a name. When the solver
  has no proof (\<^verbatim>\<open>get_proof\<close> gives \<^verbatim>\<open>None\<close>), iterating over it raises \<^verbatim>\<open>TypeError\<close>.
\<close>

definition check_proof ::
  "services \<Rightarrow> string list option \<Rightarrow> cnf \<Rightarrow> (error + bool) \<times> event list" where
  "check_proof svc proof cnf =
     (let log = [Print ''Proof of no solution:'', Print_proof proof] in
      case proof of
        None \<Rightarrow> (Inl TypeError, log)
      | Some lines \<Rightarrow>
          (case convert_proof lines of
             Inl e \<Rightarrow> (Inl e, log)
           | Inr proof2 \<Rightarrow>
               (case drup_check_proof svc cnf proof2 of
                  Inl e \<Rightarrow> (Inl e, log @ [Drup_check cnf proof2])
                | Inr outcome \<Rightarrow> (Inr True, log @ [Drup_check cnf proof2]))))"

section \<open>Compilation of the decision problem: \<^verbatim>\<open>sat_distance\<close>\<close>

text \<open>\<^verbatim>\<open>[i+1 for i,j in enumerate(r) if j]\<close>: the variables of the columns where a row is set.\<close>

definition row_literals :: "int list \<Rightarrow> int list" where
  "row_literals r = map (\<lambda>i. int i + 1) (filter (\<lambda>i. r ! i \<noteq> 0) [0..<length r])"

text \<open>A \<^verbatim>\<open>for\<close> loop over a range whose body may raise; the state is what the body updates.\<close>

fun for_range :: "(nat \<Rightarrow> 's \<Rightarrow> error + 's) \<Rightarrow> nat list \<Rightarrow> 's \<Rightarrow> error + 's" where
  "for_range body [] s = Inr s"
| "for_range body (i # is) s =
     (case body i s of Inl e \<Rightarrow> Inl e | Inr s' \<Rightarrow> for_range body is s')"

text \<open>
  The body of the first loop (third term, "not a stabilizer"): the output variable of
  row \<open>idx\<close> is \<open>idx + n + 1\<close>, one of the \<open>n - rk\<close> variables that \<^verbatim>\<open>ancillas = 2*n - rk\<close>
  already counts.
\<close>

definition not_stabilizer_body ::
  "nat \<Rightarrow> nat \<Rightarrow> matrix \<Rightarrow> nat \<Rightarrow> cnf \<times> int \<Rightarrow> error + (cnf \<times> int)" where
  "not_stabilizer_body n rk A idx st =
     (case st of (constraints, ancillas) \<Rightarrow>
        if \<not> idx < length A then Inl IndexError
        else
          (let row = row_literals (A ! idx) @ [int rk + int idx + 1] in
           case pwt row (int idx + int n + 1) ancillas of
             Inl e \<Rightarrow> Inl e
           | Inr (new_cons, num_new) \<Rightarrow> Inr (constraints @ new_cons, ancillas + num_new)))"

text \<open>
  The body of the second loop (second term, "commutes with all X stabilizers"): the
  output variable of row \<open>idx\<close> is \<open>start_ancillas + idx + 1\<close>, and \<open>pwt\<close> is called with
  the running count \<^verbatim>\<open>ancillas\<close> as its number of variables.
\<close>

definition null_space_body ::
  "matrix \<Rightarrow> int \<Rightarrow> nat \<Rightarrow> cnf \<times> int \<Rightarrow> error + (cnf \<times> int)" where
  "null_space_body Hx start_ancillas idx st =
     (case st of (constraints, ancillas) \<Rightarrow>
        if \<not> idx < length Hx then Inl IndexError
        else
          (let constraints = constraints @ [[- (start_ancillas + int idx + 1)]] in
           case pwt (row_literals (Hx ! idx)) (start_ancillas + int idx + 1) ancillas of
             Inl e \<Rightarrow> Inl e
           | Inr (new_cons, num_new) \<Rightarrow> Inr (constraints @ new_cons, ancillas + num_new)))"

text \<open>
  What the compilation hands to the rest of \<^verbatim>\<open>sat_distance\<close>: the constraints, \<open>n\<close>,
  the rank of \<^verbatim>\<open>HZ\<close>, the block \<open>A\<close>, the reduced and permuted \<^verbatim>\<open>Hx\<close> and the column
  transform.
\<close>

record compiled =
  cnf_of :: cnf
  qubits :: nat
  rank_z :: nat
  block_A :: matrix
  reduced_Hx :: matrix
  col_perm :: matrix

text \<open>
  Lines 183 to 213 of the notebook: the two reductions, \<^verbatim>\<open>A = Hz[:rk,rk:].T\<close> (row \<open>i\<close> of
  \<open>A\<close> is column \<open>rk + i\<close> of the first \<open>rk\<close> rows of \<^verbatim>\<open>Hz\<close>), the assertion on the
  reduction of \<^verbatim>\<open>HZ\<close>, the clause \<^verbatim>\<open>list(range(n+1,ancillas+1))\<close>, the two loops and the
  cardinality clauses over the variables \<open>1, \<dots>, n\<close>.
\<close>

definition sat_distance_compile :: "services \<Rightarrow> int \<Rightarrow> matrix \<Rightarrow> matrix \<Rightarrow> error + compiled" where
  "sat_distance_compile svc threshold HX HZ =
     (let n = ncols HX in
      case reduced_row_echelon svc HX of (Hx0, rkx, row_transform_x, col_transform_x) \<Rightarrow>
      let Hx1 = mod2 (matmul row_transform_x HX) in
      case reduced_row_echelon svc HZ of (Hz, rk, row_transform, col_transform) \<Rightarrow>
      let A = map (\<lambda>j. column (take rk Hz) j) [rk..<ncols Hz] in
      if \<not> (Hz = mod2 (matmul (matmul row_transform HZ) col_transform)) then Inl AssertionError
      else
        (let Hx = mod2 (matmul Hx1 col_transform);
             ancillas = 2 * int n - int rk;
             constraints = [[int n + 1..ancillas]] in
         case for_range (not_stabilizer_body n rk A) [0..<n - rk] (constraints, ancillas) of
           Inl e \<Rightarrow> Inl e
         | Inr (constraints, ancillas) \<Rightarrow>
             (let start_ancillas = ancillas in
              case for_range (null_space_body Hx start_ancillas) [0..<rkx] (constraints, ancillas) of
                Inl e \<Rightarrow> Inl e
              | Inr (constraints, ancillas) \<Rightarrow>
                  Inr \<lparr>cnf_of = constraints @ atmost svc [1..int n] threshold ancillas,
                       qubits = n, rank_z = rk, block_A = A, reduced_Hx = Hx,
                       col_perm = col_transform\<rparr>)))"

text \<open>
  The checks of a model, in the order of the source: the weight of
  \<^verbatim>\<open>result=[i>0 for i in model[:n]]\<close> against the threshold, \<^verbatim>\<open>Hx @ result\<close> modulo 2
  against zero, and \<^verbatim>\<open>A @ x_left + x_right\<close> modulo 2 against zero, where \<^verbatim>\<open>Hx\<close> and \<open>A\<close>
  are the reduced, column-permuted matrices of the compilation.
\<close>

definition model_result :: "nat \<Rightarrow> int list \<Rightarrow> int list" where
  "model_result n model = map (\<lambda>i. if i > 0 then 1 else 0) (take n model)"

definition weight_ok :: "int \<Rightarrow> int list \<Rightarrow> bool" where
  "weight_ok threshold result = (sum_list result \<le> threshold)"

definition null_vector_ok :: "matrix \<Rightarrow> int list \<Rightarrow> bool" where
  "null_vector_ok Hx result = (sum_list (map (\<lambda>x. x mod 2) (mat_vec Hx result)) = 0)"

definition not_stabilizer_ok :: "matrix \<Rightarrow> nat \<Rightarrow> int list \<Rightarrow> bool" where
  "not_stabilizer_ok A rk result =
     (let x_left = take rk result; x_right = drop rk result in
      sum_list (map (\<lambda>x. x mod 2) (map2 (+) (mat_vec A x_left) x_right)) > 0)"

text \<open>
  \<^verbatim>\<open>temp\<close>: for every variable \<open>v\<close> set in the model, the rows where column \<open>v - 1\<close> of the
  column transform is set: the qubits of the error that is displayed.
\<close>

definition displayed_support :: "matrix \<Rightarrow> nat \<Rightarrow> int list \<Rightarrow> int list" where
  "displayed_support ct n model =
     concat (map (\<lambda>v. row_literals (column ct (nat (v - 1)))) (filter (\<lambda>v. v > 0) (take n model)))"

text \<open>
  Lines 216 to 240: the solver session, the query, and the two branches. Each failing
  assertion ends the call where it stands; \<^verbatim>\<open>g.delete()\<close> is the statement before each
  \<^verbatim>\<open>return\<close>.
\<close>

definition sat_distance_solve ::
  "services \<Rightarrow> int \<Rightarrow> bool \<Rightarrow> string \<Rightarrow> compiled \<Rightarrow> (error + sat_out) \<times> event list" where
  "sat_distance_solve svc threshold proof letter c =
     (let log = [New_solver (cnf_of c) proof, Solve] in
      case solve svc (cnf_of c) of
        Some model \<Rightarrow>
          (let log = log @ [Get_model];
               result = model_result (qubits c) model in
           if \<not> weight_ok threshold result then (Inl AssertionError, log)
           else if \<not> null_vector_ok (reduced_Hx c) result then (Inl AssertionError, log)
           else if \<not> not_stabilizer_ok (block_A c) (rank_z c) result then (Inl AssertionError, log)
           else (Inr (Model model),
                 log @ [Display letter (sum_list result)
                          (displayed_support (col_perm c) (qubits c) model),
                        Delete_solver]))
      | None \<Rightarrow>
          if proof then
            (case check_proof svc (get_proof svc (cnf_of c)) (cnf_of c) of
               (Inl e, plog) \<Rightarrow> (Inl e, log @ [Get_proof] @ plog)
             | (Inr ok, plog) \<Rightarrow>
                 if \<not> ok then (Inl AssertionError, log @ [Get_proof] @ plog)
                 else (Inr No_solution,
                       log @ [Get_proof] @ plog @
                       [Print ''Proof of no solution verified.'', Delete_solver]))
          else (Inr No_solution, log @ [Delete_solver]))"

text \<open>
  \<^verbatim>\<open>sat_distance(threshold,HX,HZ,proof,switch)\<close>: the assertions on the input (both
  matrices binary, the same number of columns, \<^verbatim>\<open>HX @ HZ.T\<close> zero modulo 2), then the
  compilation and the query. The result is the value or the exception, with the events
  of the call.
\<close>

definition sat_distance ::
  "services \<Rightarrow> int \<Rightarrow> matrix \<Rightarrow> matrix \<Rightarrow> bool \<Rightarrow> bool \<Rightarrow> (error + sat_out) \<times> event list" where
  "sat_distance svc threshold HX HZ proof switch =
     (if np_any (x_minus_xx HX) then (Inl AssertionError, [])
      else if np_any (x_minus_xx HZ) then (Inl AssertionError, [])
      else if \<not> (ncols HX = ncols HZ) then (Inl AssertionError, [])
      else if np_any (mod2 (matmul HX (mat_T HZ))) then (Inl AssertionError, [])
      else
        (let letter = (if switch then ''X'' else ''Z'') in
         case sat_distance_compile svc threshold HX HZ of
           Inl e \<Rightarrow> (Inl e, [])
         | Inr c \<Rightarrow> sat_distance_solve svc threshold proof letter c))"

section \<open>The search for the distance: \<^verbatim>\<open>find_weight\<close>\<close>

text \<open>
  One pass of a \<^verbatim>\<open>while bRunning\<close> loop of \<^verbatim>\<open>find_weight\<close>. The state is \<^verbatim>\<open>upper\<close> and
  \<^verbatim>\<open>bRunning\<close>; \<open>oracle\<close> is the call of \<^verbatim>\<open>sat_distance\<close> at a bound, and \<^verbatim>\<open>if out\<close> holds for
  a non-empty model. The weight is the number of positive entries among the first
  \<open>num\<close> of the model.
\<close>

definition model_weight :: "nat \<Rightarrow> int list \<Rightarrow> int" where
  "model_weight num out = int (length (filter (\<lambda>val. val > 0) (take num out)))"

definition search_body ::
  "(int \<Rightarrow> error + sat_out) \<Rightarrow> nat \<Rightarrow> int \<times> bool \<Rightarrow> error + (int \<times> bool)" where
  "search_body oracle num st =
     (case st of (upper, bRunning) \<Rightarrow>
        (case oracle (upper - 1) of
           Inl e \<Rightarrow> Inl e
         | Inr (Model out) \<Rightarrow>
             if out \<noteq> [] then
               (let n_upper = model_weight num out in
                if \<not> (0 < n_upper \<and> n_upper < upper) then Inl AssertionError
                else Inr (n_upper, bRunning))
             else Inr (upper, False)
         | Inr No_solution \<Rightarrow> Inr (upper, False)))"

text \<open>
  The loop itself. Whether it ends is not assumed: a loop that runs forever has the
  value \<open>None\<close>.
\<close>

partial_function (option) search_loop ::
  "(int \<Rightarrow> error + sat_out) \<Rightarrow> nat \<Rightarrow> int \<times> bool \<Rightarrow> (error + int) option" where
  "search_loop oracle num st =
     (if snd st then
        (case search_body oracle num st of
           Inl e \<Rightarrow> Some (Inl e)
         | Inr st' \<Rightarrow> search_loop oracle num st')
      else Some (Inr (fst st)))"

text \<open>
  \<^verbatim>\<open>find_weight(Hx,Hz,upper_bound,both,switch)\<close>. The function \<open>sd\<close> is \<^verbatim>\<open>sat_distance\<close>
  as \<^verbatim>\<open>find_weight\<close> calls it (threshold, two matrices, \<^verbatim>\<open>switch\<close>), of which only the
  returned value is used. The second loop starts from the bound the first one reached.
\<close>

definition find_weight ::
  "(int \<Rightarrow> matrix \<Rightarrow> matrix \<Rightarrow> bool \<Rightarrow> error + sat_out) \<Rightarrow>
   matrix \<Rightarrow> matrix \<Rightarrow> int \<Rightarrow> bool \<Rightarrow> bool \<Rightarrow> (error + int) option" where
  "find_weight sd Hx Hz upper_bound both switch =
     (case (if switch then (Hz, Hx) else (Hx, Hz)) of (HX, HZ) \<Rightarrow>
        if np_any (x_minus_xx HX) then Some (Inl AssertionError)
        else if np_any (x_minus_xx HZ) then Some (Inl AssertionError)
        else
          (case search_loop (\<lambda>t. sd t HX HZ switch) (ncols HX) (upper_bound, True) of
             None \<Rightarrow> None
           | Some (Inl e) \<Rightarrow> Some (Inl e)
           | Some (Inr upper) \<Rightarrow>
               if both then search_loop (\<lambda>t. sd t HZ HX (\<not> switch)) (ncols HZ) (upper, True)
               else Some (Inr upper)))"

text \<open>\<^verbatim>\<open>find_weight\<close> over the services: \<open>sd\<close> is the value of \<open>sat_distance\<close> without proof.\<close>

definition find_weight_with :: "services \<Rightarrow> matrix \<Rightarrow> matrix \<Rightarrow> int \<Rightarrow> bool \<Rightarrow> bool \<Rightarrow> (error + int) option" where
  "find_weight_with svc =
     find_weight (\<lambda>threshold HX HZ switch. fst (sat_distance svc threshold HX HZ False switch))"

section \<open>An example for the search\<close>

text \<open>
  A check matrix of the code on seven qubits, and a \<^verbatim>\<open>sat_distance\<close> that answers for a
  least weight of 3 in the one direction and of 7 in the other.
\<close>

definition example_sd :: "int \<Rightarrow> matrix \<Rightarrow> matrix \<Rightarrow> bool \<Rightarrow> error + sat_out" where
  "example_sd t HX HZ switch =
     (if switch then (if t < 7 then Inr No_solution else Inr (Model [1, 2, 3, 4, 5, 6, 7]))
      else (if t < 3 then Inr No_solution else Inr (Model [1, 2, 3, - 4, - 5, - 6, - 7])))"

definition example_H :: matrix where
  "example_H = [[0, 0, 0, 1, 1, 1, 1], [0, 1, 1, 0, 0, 1, 1], [1, 0, 1, 0, 1, 0, 1]]"

section \<open>Examples and stand-ins for the services\<close>

text \<open>A stand-in for the cardinality encoder: of any \<open>bound + 1\<close> literals one is false.\<close>

definition example_atmost :: "int list \<Rightarrow> int \<Rightarrow> int \<Rightarrow> cnf" where
  "example_atmost lits bound top_id =
     map (map uminus) (filter (\<lambda>s. int (length s) = bound + 1) (subseqs lits))"

text \<open>Further stand-ins: a solver without a model, one that returns a given model
  whatever the clauses are, a solver's proof, and a checker with a fixed outcome.\<close>

definition no_model :: "cnf \<Rightarrow> int list option" where
  "no_model cs = None"


definition no_proof :: "cnf \<Rightarrow> string list option" where
  "no_proof cs = None"

definition proof_lines :: "string list \<Rightarrow> cnf \<Rightarrow> string list option" where
  "proof_lines lines cs = Some lines"

definition drup_says :: "drup_outcome \<Rightarrow> cnf \<Rightarrow> cnf \<Rightarrow> error + drup_outcome" where
  "drup_says outcome cnf proof = Inr outcome"

definition identity4 :: matrix where
  "identity4 = [[1, 0, 0, 0], [0, 1, 0, 0], [0, 0, 1, 0], [0, 0, 0, 1]]"

text \<open>
  The code with \<^verbatim>\<open>HX = HZ = [[1,1,1,1]]\<close>: the reduction leaves the matrix as it is, with
  rank 1 and identity transforms.
\<close>

definition H1111 :: matrix where
  "H1111 = [[1, 1, 1, 1]]"

definition services_1111 ::
  "(cnf \<Rightarrow> int list option) \<Rightarrow> (cnf \<Rightarrow> string list option) \<Rightarrow>
   (cnf \<Rightarrow> cnf \<Rightarrow> error + drup_outcome) \<Rightarrow> services" where
  "services_1111 slv prf chk =
     \<lparr>reduced_row_echelon = (\<lambda>M. (M, 1, [[1]], identity4)),
      atmost = example_atmost, solve = slv, get_proof = prf, drup_check_proof = chk\<rparr>"

text \<open>The clauses the two loops build for this code.\<close>

definition constraints_1111 :: cnf where
  "constraints_1111 =
     [[5, 6, 7]] @ xor_list 5 1 2 @ xor_list 6 1 3 @ xor_list 7 1 4 @ [[- 8]] @
     xor_list 8 8 9 @ xor_list 8 1 2 @ xor_list 9 3 4"







text \<open>The input conditions in the words of the specification.\<close>

definition binary :: "matrix \<Rightarrow> bool" where
  "binary M = list_all (list_all (\<lambda>x. x = 0 \<or> x = 1)) M"




section \<open>Properties of the parity gate compiler\<close>

lemma pwt_Nil: "pwt [] idx num_vars = Inl AssertionError"
  by (simp add: pwt.simps)

lemma xor_clauses_eq:
  "xor_clauses y a b = (if y = 0 \<or> a = 0 \<or> b = 0 then Inl AssertionError else Inr (xor_list y a b))"
  by (simp add: xor_clauses_def xor_list_def)

lemma pwt_single: "length h = 1 \<Longrightarrow> pwt h idx num_vars = Inl AssertionError"
proof -
  assume len: "length h = 1"
  then have half: "take (length h div 2) h = []" by simp
  show ?thesis
  proof (cases "0 < idx \<and> 0 < num_vars")
    case False
    then show ?thesis using len by (subst pwt.simps) auto
  next
    case True
    then show ?thesis using len half
      by (subst pwt.simps) (simp add: pwt_Nil Let_def xor_clauses_eq)
  qed
qed

lemma pwt_Inr_length: "pwt h idx num_vars = Inr r \<Longrightarrow> 2 \<le> length h"
proof (rule ccontr)
  assume ok: "pwt h idx num_vars = Inr r" and "\<not> 2 \<le> length h"
  then have "length h = 0 \<or> length h = 1" by arith
  then show False
  proof
    assume "length h = 0"
    then show False using ok by (simp add: pwt_Nil)
  next
    assume "length h = 1"
    then show False using ok by (simp add: pwt_single)
  qed
qed

text \<open>
  Claim C10. A call of \<open>pwt\<close> with exactly one literal raises \<^verbatim>\<open>AssertionError\<close>,
  whatever the target and the number of variables: the entry assertion accepts the
  list, the splitting branch recurses on the empty first half, and that call fails
  \<^verbatim>\<open>len(h)>0\<close>. Hence \<open>pwt\<close> returns normally only for lists of at least two literals.
\<close>

theorem pwt_one_literal_raises:
  "(length h = 1 \<longrightarrow> pwt h idx num_vars = Inl AssertionError) \<and>
   (\<forall>r. pwt h idx num_vars = Inr r \<longrightarrow> 2 \<le> length h)"
  by (auto simp: pwt_single dest: pwt_Inr_length)

theorem pwt_one_literal_raises_witness:
  "length [5 :: int] = 1 \<and> pwt [5] 1 1 = Inl AssertionError \<and>
   pwt [1, 2] 3 3 = Inr ([[- 3, - 1, - 2], [- 3, 1, 2], [3, 1, - 2], [3, - 1, 2]], 0) \<and>
   2 \<le> length [1 :: int, 2]"
proof -
  have a: "length [5 :: int] = 1" by simp
  have b: "pwt [1, 2] 3 3 = Inr ([[- 3, - 1, - 2], [- 3, 1, 2], [3, 1, - 2], [3, - 1, 2]], 0)"
    by (simp add: pwt.simps xor_clauses_def)
  from pwt_one_literal_raises [of "[5]" 1 1] a
  have c: "pwt [5] 1 1 = Inl AssertionError" by blast
  from pwt_one_literal_raises [of "[1, 2]" 3 3] b
  have d: "2 \<le> length [1 :: int, 2]" by blast
  from a b c d show ?thesis by blast
qed

text \<open>Unfolding of a call that passes the entry assertions, by the length of the list.\<close>

lemma pwt_two:
  assumes "length h = 2" "0 < idx" "0 < num_vars" "0 \<notin> set h"
  shows "pwt h idx num_vars = Inr (xor_list idx (h ! 0) (h ! 1), 0)"
proof -
  have "h ! 0 \<in> set h" "h ! 1 \<in> set h" using assms(1) by simp_all
  with assms(4) have "h ! 0 \<noteq> 0" "h ! 1 \<noteq> 0" by metis+
  with assms show ?thesis by (subst pwt.simps) (simp add: xor_clauses_eq)
qed

lemma pwt_three:
  assumes "length h = 3" "0 < idx" "0 < num_vars" "0 \<notin> set h"
  shows "pwt h idx num_vars =
    Inr (xor_list idx (h ! 2) (num_vars + 1) @ xor_list (num_vars + 1) (h ! 0) (h ! 1), 1)"
proof -
  have "h ! 2 \<in> set h" using assms(1) by simp
  with assms(4) have nz: "h ! 2 \<noteq> 0" by metis
  have "0 \<notin> set (take 2 h)" using assms(4) by (auto dest: in_set_takeD)
  with assms have "pwt (take 2 h) (num_vars + 1) (num_vars + 1)
      = Inr (xor_list (num_vars + 1) (take 2 h ! 0) (take 2 h ! 1), 0)"
    by (intro pwt_two) auto
  with assms nz show ?thesis by (subst pwt.simps) (simp add: xor_clauses_eq)
qed

lemma pwt_many:
  assumes "4 \<le> length h" "0 < idx" "0 < num_vars"
  shows "pwt h idx num_vars =
    (case pwt (take (length h div 2) h) (num_vars + 1) (num_vars + 2) of
       Inl e \<Rightarrow> Inl e
     | Inr (nc, na) \<Rightarrow>
         (case pwt (drop (length h div 2) h) (num_vars + 2) (num_vars + 2 + na) of
            Inl e \<Rightarrow> Inl e
          | Inr (nc', na') \<Rightarrow>
              Inr (xor_list idx (num_vars + 1) (num_vars + 2) @ nc @ nc', 2 + na + na')))"
proof -
  have "h \<noteq> []" "length h \<noteq> 2" "length h \<noteq> 3" using assms(1) by auto
  with assms show ?thesis by (subst pwt.simps) (simp add: Let_def xor_clauses_eq)
qed

lemma pwt_returns:
  "2 \<le> length h \<Longrightarrow> 0 < idx \<Longrightarrow> 0 < num_vars \<Longrightarrow> 0 \<notin> set h \<Longrightarrow>
   \<exists>cs. pwt h idx num_vars = Inr (cs, int (length h) - 2)"
proof (induction "length h" arbitrary: h idx num_vars rule: less_induct)
  case less
  consider "length h = 2" | "length h = 3" | "4 \<le> length h" using less.prems(1) by linarith
  then show ?case
  proof cases
    case 1
    with less.prems show ?thesis by (simp add: pwt_two)
  next
    case 2
    with less.prems show ?thesis by (simp add: pwt_three)
  next
    case 3
    let ?B = "take (length h div 2) h" and ?C = "drop (length h div 2) h"
    have lB: "length ?B = length h div 2" by simp
    have lC: "length ?C = length h - length h div 2" by simp
    have B2: "2 \<le> length ?B" "length ?B < length h" unfolding lB using 3 by arith+
    moreover have "0 \<notin> set ?B" using less.prems(4) by (auto dest: in_set_takeD)
    ultimately obtain nc where B: "pwt ?B (num_vars + 1) (num_vars + 2) = Inr (nc, int (length ?B) - 2)"
      using less.hyps [of ?B "num_vars + 1" "num_vars + 2"] less.prems by auto
    have "2 \<le> length ?C" "length ?C < length h" unfolding lC using 3 by arith+
    moreover have "0 \<notin> set ?C" using less.prems(4) by (auto dest: in_set_dropD)
    ultimately obtain nc' where C: "pwt ?C (num_vars + 2) (num_vars + 2 + (int (length ?B) - 2)) = Inr (nc', int (length ?C) - 2)"
      using less.hyps [of ?C "num_vars + 2" "num_vars + 2 + (int (length ?B) - 2)"] less.prems B2 by auto
    have "2 + (int (length ?B) - 2) + (int (length ?C) - 2) = int (length h) - 2"
      unfolding lB lC using 3 by arith
    with 3 less.prems B C show ?thesis by (simp add: pwt_many del: length_take length_drop)
  qed
qed

lemma pwt_induct_ok [consumes 4, case_names two three many]:
  assumes pre: "2 \<le> length h" "0 < idx" "0 < num_vars" "0 \<notin> set h"
    and two: "\<And>h idx num_vars. length h = 2 \<Longrightarrow> 0 < idx \<Longrightarrow> 0 < num_vars \<Longrightarrow> 0 \<notin> set h
        \<Longrightarrow> P h idx num_vars"
    and three: "\<And>h idx num_vars. length h = 3 \<Longrightarrow> 0 < idx \<Longrightarrow> 0 < num_vars \<Longrightarrow> 0 \<notin> set h
        \<Longrightarrow> P h idx num_vars"
    and many: "\<And>h idx num_vars B C nc nc'. 4 \<le> length h \<Longrightarrow> 0 < idx \<Longrightarrow> 0 < num_vars \<Longrightarrow> 0 \<notin> set h
        \<Longrightarrow> B = take (length h div 2) h \<Longrightarrow> C = drop (length h div 2) h
        \<Longrightarrow> 2 \<le> length B \<Longrightarrow> 2 \<le> length C \<Longrightarrow> h = B @ C
        \<Longrightarrow> pwt B (num_vars + 1) (num_vars + 2) = Inr (nc, int (length B) - 2)
        \<Longrightarrow> pwt C (num_vars + 2) (num_vars + int (length B)) = Inr (nc', int (length C) - 2)
        \<Longrightarrow> pwt h idx num_vars
              = Inr (xor_list idx (num_vars + 1) (num_vars + 2) @ nc @ nc', int (length h) - 2)
        \<Longrightarrow> P B (num_vars + 1) (num_vars + 2)
        \<Longrightarrow> P C (num_vars + 2) (num_vars + int (length B))
        \<Longrightarrow> P h idx num_vars"
  shows "P h idx num_vars"
  using pre
proof (induction "length h" arbitrary: h idx num_vars rule: less_induct)
  case less
  consider "length h = 2" | "length h = 3" | "4 \<le> length h" using less.prems(1) by linarith
  then show ?case
  proof cases
    case 1
    with less.prems show ?thesis by (intro two)
  next
    case 2
    with less.prems show ?thesis by (intro three)
  next
    case 3
    define B where "B = take (length h div 2) h"
    define C where "C = drop (length h div 2) h"
    have lB: "length B = length h div 2" by (simp add: B_def)
    have lC: "length C = length h - length h div 2" by (simp add: C_def)
    have hBC: "h = B @ C" by (simp add: B_def C_def)
    have B2: "2 \<le> length B" "length B < length h" unfolding lB using 3 by arith+
    have C2: "2 \<le> length C" "length C < length h" unfolding lC using 3 by arith+
    have zB: "0 \<notin> set B" and zC: "0 \<notin> set C" using less.prems(4) hBC by auto
    from pwt_returns [OF B2(1) _ _ zB, of "num_vars + 1" "num_vars + 2"] less.prems
    obtain nc where B: "pwt B (num_vars + 1) (num_vars + 2) = Inr (nc, int (length B) - 2)"
      by auto
    from pwt_returns [OF C2(1) _ _ zC, of "num_vars + 2" "num_vars + int (length B)"] less.prems
    obtain nc' where C: "pwt C (num_vars + 2) (num_vars + int (length B)) = Inr (nc', int (length C) - 2)"
      by auto
    have cnt: "2 + (int (length B) - 2) + (int (length C) - 2) = int (length h) - 2"
      unfolding lB lC using 3 by arith
    have "pwt h idx num_vars
       = Inr (xor_list idx (num_vars + 1) (num_vars + 2) @ nc @ nc', 2 + (int (length B) - 2) + (int (length C) - 2))"
      using 3 less.prems B C by (simp add: pwt_many B_def [symmetric] C_def [symmetric])
    then have H: "pwt h idx num_vars
       = Inr (xor_list idx (num_vars + 1) (num_vars + 2) @ nc @ nc', int (length h) - 2)"
      by (simp only: cnt)
    have PB: "P B (num_vars + 1) (num_vars + 2)"
      using less.hyps [OF B2(2) B2(1) _ _ zB] less.prems by simp
    have PC: "P C (num_vars + 2) (num_vars + int (length B))"
      using less.hyps [OF C2(2) C2(1) _ _ zC] less.prems by simp
    show ?thesis
      using many [OF 3 less.prems(2,3,4) B_def C_def B2(1) C2(1) hBC B C H PB PC] .
  qed
qed

lemma test_condition_pos: "0 < v \<Longrightarrow> test_condition v \<sigma> = \<sigma> v"
  by (simp add: test_condition_def)

lemma test_condition_uminus: "l \<noteq> 0 \<Longrightarrow> test_condition (- l) \<sigma> = (\<not> test_condition l \<sigma>)"
  by (simp add: test_condition_def)

lemma test_condition_cong: "\<sigma> \<bar>l\<bar> = \<sigma>' \<bar>l\<bar> \<Longrightarrow> test_condition l \<sigma> = test_condition l \<sigma>'"
  by (auto simp: test_condition_def abs_if split: if_splits)

lemma satisfies_append:
  "bit_string_satisfies (xs @ ys) \<sigma> = (bit_string_satisfies xs \<sigma> \<and> bit_string_satisfies ys \<sigma>)"
  by (simp add: bit_string_satisfies_def)

lemma satisfies_cong:
  "(\<And>c l. c \<in> set cs \<Longrightarrow> l \<in> set c \<Longrightarrow> \<sigma> \<bar>l\<bar> = \<sigma>' \<bar>l\<bar>) \<Longrightarrow>
   bit_string_satisfies cs \<sigma> = bit_string_satisfies cs \<sigma>'"
proof -
  assume a: "\<And>c l. c \<in> set cs \<Longrightarrow> l \<in> set c \<Longrightarrow> \<sigma> \<bar>l\<bar> = \<sigma>' \<bar>l\<bar>"
  have "bit_string_or c \<sigma> = bit_string_or c \<sigma>'" if "c \<in> set cs" for c
    unfolding bit_string_or_def list_ex_iff
    using a [OF that] test_condition_cong by blast
  then show ?thesis
    unfolding bit_string_satisfies_def list_all_iff by blast
qed

lemma satisfies_xor_list:
  "y \<noteq> 0 \<Longrightarrow> a \<noteq> 0 \<Longrightarrow> b \<noteq> 0 \<Longrightarrow>
   bit_string_satisfies (xor_list y a b) \<sigma>
     = (test_condition y \<sigma> = (test_condition a \<sigma> \<noteq> test_condition b \<sigma>))"
  by (cases "test_condition y \<sigma>"; cases "test_condition a \<sigma>"; cases "test_condition b \<sigma>")
     (simp_all add: bit_string_satisfies_def bit_string_or_def xor_list_def test_condition_uminus)

lemma parity_append: "parity (xs @ ys) \<sigma> = (parity xs \<sigma> \<noteq> parity ys \<sigma>)"
  by (induction xs) auto

lemma parity_cong: "(\<And>l. l \<in> set xs \<Longrightarrow> \<sigma> \<bar>l\<bar> = \<sigma>' \<bar>l\<bar>) \<Longrightarrow> parity xs \<sigma> = parity xs \<sigma>'"
proof (induction xs)
  case Nil
  show ?case by simp
next
  case (Cons a xs)
  have "test_condition a \<sigma> = test_condition a \<sigma>'"
    by (rule test_condition_cong) (simp add: Cons.prems)
  moreover have "parity xs \<sigma> = parity xs \<sigma>'"
    by (rule Cons.IH) (simp add: Cons.prems)
  ultimately show ?case by simp
qed

lemma parity_two: "length h = 2 \<Longrightarrow> parity h \<sigma> = (test_condition (h ! 0) \<sigma> \<noteq> test_condition (h ! 1) \<sigma>)"
  by (auto simp: numeral_2_eq_2 length_Suc_conv)

lemma parity_three:
  "length h = 3 \<Longrightarrow> parity h \<sigma>
     = (test_condition (h ! 2) \<sigma> \<noteq> (test_condition (h ! 0) \<sigma> \<noteq> test_condition (h ! 1) \<sigma>))"
  by (auto simp: numeral_3_eq_3 length_Suc_conv)

lemma nth_nonzero: "0 \<notin> set h \<Longrightarrow> i < length h \<Longrightarrow> h ! i \<noteq> (0::int)"
  by (metis nth_mem)

text \<open>Every satisfying assignment gives the target the parity of the literals.\<close>

lemma pwt_sound:
  assumes "2 \<le> length h" "0 < idx" "0 < num_vars" "0 \<notin> set h"
  shows "pwt h idx num_vars = Inr (cs, na) \<Longrightarrow> bit_string_satisfies cs \<sigma> \<Longrightarrow> \<sigma> idx = parity h \<sigma>"
  using assms
proof (induction h idx num_vars arbitrary: cs na rule: pwt_induct_ok)
  case (two h idx num_vars)
  have nz: "h ! 0 \<noteq> 0" "h ! 1 \<noteq> 0" "idx \<noteq> 0" using two.hyps by (simp_all add: nth_nonzero)
  from two.prems(1) have cs: "cs = xor_list idx (h ! 0) (h ! 1)"
    by (simp add: pwt_two [OF two.hyps])
  from two.prems(2) have "test_condition idx \<sigma> = (test_condition (h ! 0) \<sigma> \<noteq> test_condition (h ! 1) \<sigma>)"
    unfolding cs by (simp only: satisfies_xor_list [OF nz(3) nz(1) nz(2)])
  then show ?case
    by (simp only: parity_two [OF two.hyps(1)] test_condition_pos [OF two.hyps(2)])
next
  case (three h idx num_vars)
  have nz: "h ! 0 \<noteq> 0" "h ! 1 \<noteq> 0" "h ! 2 \<noteq> 0" using three.hyps by (simp_all add: nth_nonzero)
  have v: "num_vars + 1 \<noteq> 0" "0 < num_vars + 1" "idx \<noteq> 0" using three.hyps by simp_all
  from three.prems(1) have cs: "cs = xor_list idx (h ! 2) (num_vars + 1) @ xor_list (num_vars + 1) (h ! 0) (h ! 1)"
    by (simp add: pwt_three [OF three.hyps])
  from three.prems(2) have
    "test_condition idx \<sigma> = (test_condition (h ! 2) \<sigma> \<noteq> test_condition (num_vars + 1) \<sigma>)"
    "test_condition (num_vars + 1) \<sigma> = (test_condition (h ! 0) \<sigma> \<noteq> test_condition (h ! 1) \<sigma>)"
    unfolding cs satisfies_append
    by (simp_all only: satisfies_xor_list [OF v(3) nz(3) v(1)] satisfies_xor_list [OF v(1) nz(1) nz(2)])
  then show ?case
    by (simp only: parity_three [OF three.hyps(1)] test_condition_pos [OF three.hyps(2)]) 
next
  case (many h idx num_vars B C nc nc')
  from many.prems(1) many.hyps(12) have cs: "cs = xor_list idx (num_vars + 1) (num_vars + 2) @ nc @ nc'" by simp
  with many.prems(2) have s: "bit_string_satisfies (xor_list idx (num_vars + 1) (num_vars + 2)) \<sigma>"
    "bit_string_satisfies nc \<sigma>" "bit_string_satisfies nc' \<sigma>"
    by (simp_all add: satisfies_append)
  have "\<sigma> (num_vars + 1) = parity B \<sigma>" using many.IH(1) [OF many.hyps(10) s(2)] .
  moreover have "\<sigma> (num_vars + 2) = parity C \<sigma>" using many.IH(2) [OF many.hyps(11) s(3)] .
  moreover have "\<sigma> idx = (\<sigma> (num_vars + 1) \<noteq> \<sigma> (num_vars + 2))"
    using s(1) many.hyps(2,3) by (simp add: satisfies_xor_list test_condition_pos)
  ultimately show ?case unfolding many.hyps(9) by (simp only: parity_append)
qed

lemma xor_list_vars:
  "c \<in> set (xor_list y a b) \<Longrightarrow> l \<in> set c \<Longrightarrow> \<bar>l\<bar> = \<bar>y\<bar> \<or> \<bar>l\<bar> = \<bar>a\<bar> \<or> \<bar>l\<bar> = \<bar>b\<bar>"
  by (auto simp: xor_list_def)

text \<open>
  The variables of the returned clauses: the target, the variables of the literals and
  the ancillas \<open>num_vars + 1, \<dots>, num_vars + na\<close>.
\<close>

lemma pwt_vars:
  assumes "2 \<le> length h" "0 < idx" "0 < num_vars" "0 \<notin> set h"
  shows "(\<And>l. l \<in> set h \<Longrightarrow> \<bar>l\<bar> \<le> num_vars) \<Longrightarrow> pwt h idx num_vars = Inr (cs, na) \<Longrightarrow>
    c \<in> set cs \<Longrightarrow> l \<in> set c \<Longrightarrow> \<bar>l\<bar> = idx \<or> (0 < \<bar>l\<bar> \<and> \<bar>l\<bar> \<le> num_vars + na)"
  using assms
proof (induction h idx num_vars arbitrary: cs na c l rule: pwt_induct_ok)
  case (two h idx num_vars)
  have m: "h ! 0 \<in> set h" "h ! 1 \<in> set h" using two.hyps(1) by simp_all
  then have nz: "h ! 0 \<noteq> 0" "h ! 1 \<noteq> 0" using two.hyps(4) by metis+
  from two.prems(2) have cs: "cs = xor_list idx (h ! 0) (h ! 1)" "na = 0"
    by (simp_all add: pwt_two [OF two.hyps])
  from xor_list_vars [OF two.prems(3) [unfolded cs] two.prems(4)]
  show ?case using two.prems(1) [OF m(1)] two.prems(1) [OF m(2)] two.hyps(2) nz cs(2) by auto
next
  case (three h idx num_vars)
  have m: "h ! 0 \<in> set h" "h ! 1 \<in> set h" "h ! 2 \<in> set h" using three.hyps(1) by simp_all
  then have nz: "h ! 0 \<noteq> 0" "h ! 1 \<noteq> 0" "h ! 2 \<noteq> 0" using three.hyps(4) by metis+
  from three.prems(2)
  have cs: "cs = xor_list idx (h ! 2) (num_vars + 1) @ xor_list (num_vars + 1) (h ! 0) (h ! 1)" "na = 1"
    by (simp_all add: pwt_three [OF three.hyps])
  from three.prems(3) have "c \<in> set (xor_list idx (h ! 2) (num_vars + 1))
      \<or> c \<in> set (xor_list (num_vars + 1) (h ! 0) (h ! 1))"
    unfolding cs by simp
  then have "\<bar>l\<bar> = \<bar>idx\<bar> \<or> \<bar>l\<bar> = \<bar>h ! 0\<bar> \<or> \<bar>l\<bar> = \<bar>h ! 1\<bar> \<or> \<bar>l\<bar> = \<bar>h ! 2\<bar> \<or> \<bar>l\<bar> = \<bar>num_vars + 1\<bar>"
    using xor_list_vars [OF _ three.prems(4)] by blast
  then show ?case
    using three.prems(1) [OF m(1)] three.prems(1) [OF m(2)] three.prems(1) [OF m(3)]
      three.hyps(2,3) nz cs(2) by auto
next
  case (many h idx num_vars B C nc nc')
  from many.prems(2) many.hyps(12)
  have cs: "cs = xor_list idx (num_vars + 1) (num_vars + 2) @ nc @ nc'" "na = int (length h) - 2"
    by simp_all
  have len: "int (length h) = int (length B) + int (length C)"
    by (subst many.hyps(9)) simp
  have bB: "\<bar>l\<bar> \<le> num_vars + 2" if "l \<in> set B" for l
    using many.prems(1) [of l] that many.hyps(9) by auto
  have bC: "\<bar>l\<bar> \<le> num_vars + int (length B)" if "l \<in> set C" for l
    using many.prems(1) [of l] that many.hyps(9) many.hyps(7) by auto
  from many.prems(3) consider "c \<in> set (xor_list idx (num_vars + 1) (num_vars + 2))"
    | "c \<in> set nc" | "c \<in> set nc'"
    unfolding cs by auto
  then show ?case
  proof cases
    case 1
    from xor_list_vars [OF 1 many.prems(4)] show ?thesis
      using many.hyps(1,2,3) cs(2) by auto
  next
    case 2
    from many.IH(1) [OF bB many.hyps(10) 2 many.prems(4)] show ?thesis
      using many.hyps(3,7,8) cs(2) len by auto
  next
    case 3
    from many.IH(2) [OF bC many.hyps(11) 3 many.prems(4)] show ?thesis
      using many.hyps(3,7,8) cs(2) len by auto
  qed
qed

text \<open>
  An assignment that gives the target the parity of the literals extends to the
  ancillas so that every clause holds, when the target is not one of the ancillas.
\<close>

lemma pwt_complete:
  assumes "2 \<le> length h" "0 < idx" "0 < num_vars" "0 \<notin> set h"
  shows "(\<And>l. l \<in> set h \<Longrightarrow> \<bar>l\<bar> \<le> num_vars) \<Longrightarrow>
    idx \<le> num_vars \<or> num_vars + (int (length h) - 2) < idx \<Longrightarrow>
    pwt h idx num_vars = Inr (cs, na) \<Longrightarrow> \<sigma> idx = parity h \<sigma> \<Longrightarrow>
    \<exists>\<sigma>'. (\<forall>v. v \<le> num_vars \<or> num_vars + na < v \<longrightarrow> \<sigma>' v = \<sigma> v) \<and> bit_string_satisfies cs \<sigma>'"
  using assms
proof (induction h idx num_vars arbitrary: cs na \<sigma> rule: pwt_induct_ok)
  case (two h idx num_vars)
  have nz: "h ! 0 \<noteq> 0" "h ! 1 \<noteq> 0" "idx \<noteq> 0" using two.hyps by (simp_all add: nth_nonzero)
  from two.prems(3) have cs: "cs = xor_list idx (h ! 0) (h ! 1)"
    by (simp add: pwt_two [OF two.hyps])
  have "bit_string_satisfies cs \<sigma>"
    unfolding cs satisfies_xor_list [OF nz(3) nz(1) nz(2)]
    using two.prems(4)
    by (simp only: parity_two [OF two.hyps(1)] test_condition_pos [OF two.hyps(2)])
  then show ?case by blast
next
  case (three h idx num_vars)
  have m: "h ! 0 \<in> set h" "h ! 1 \<in> set h" "h ! 2 \<in> set h" using three.hyps(1) by simp_all
  have nz: "h ! 0 \<noteq> 0" "h ! 1 \<noteq> 0" "h ! 2 \<noteq> 0" using three.hyps by (simp_all add: nth_nonzero)
  have v: "num_vars + 1 \<noteq> 0" "0 < num_vars + 1" "idx \<noteq> 0" using three.hyps by simp_all
  from three.prems(3)
  have cs: "cs = xor_list idx (h ! 2) (num_vars + 1) @ xor_list (num_vars + 1) (h ! 0) (h ! 1)"
    and na: "na = 1"
    by (simp_all add: pwt_three [OF three.hyps])
  define a where "a = (test_condition (h ! 0) \<sigma> \<noteq> test_condition (h ! 1) \<sigma>)"
  define \<sigma>' where "\<sigma>' = \<sigma>(num_vars + 1 := a)"
  have idx: "idx \<noteq> num_vars + 1" using three.prems(2) three.hyps(1) by auto
  have same: "test_condition (h ! i) \<sigma>' = test_condition (h ! i) \<sigma>" if "i < 3" for i
  proof (rule test_condition_cong)
    have "h ! i \<in> set h" using that three.hyps(1) by simp
    from three.prems(1) [OF this] show "\<sigma>' \<bar>h ! i\<bar> = \<sigma> \<bar>h ! i\<bar>" by (simp add: \<sigma>'_def)
  qed
  have t: "test_condition idx \<sigma>' = \<sigma> idx" "test_condition (num_vars + 1) \<sigma>' = a"
    using idx by (simp_all add: test_condition_pos [OF three.hyps(2)] test_condition_pos [OF v(2)] \<sigma>'_def)
  have "\<sigma> idx = (test_condition (h ! 2) \<sigma> \<noteq> a)"
    using three.prems(4) by (simp only: parity_three [OF three.hyps(1)] a_def)
  moreover have s0: "test_condition (h ! 0) \<sigma>' = test_condition (h ! 0) \<sigma>" by (rule same) simp
  moreover have s1: "test_condition (h ! 1) \<sigma>' = test_condition (h ! 1) \<sigma>" by (rule same) simp
  moreover have s2: "test_condition (h ! 2) \<sigma>' = test_condition (h ! 2) \<sigma>" by (rule same) simp
  ultimately have "bit_string_satisfies cs \<sigma>'"
    unfolding cs satisfies_append satisfies_xor_list [OF v(3) nz(3) v(1)]
      satisfies_xor_list [OF v(1) nz(1) nz(2)] t
    by (simp only: a_def simp_thms)
  moreover have "\<forall>v. v \<le> num_vars \<or> num_vars + na < v \<longrightarrow> \<sigma>' v = \<sigma> v"
    by (simp add: \<sigma>'_def na)
  ultimately show ?case by blast
next
  case (many h idx num_vars B C nc nc')
  from many.prems(3) many.hyps(12)
  have cs: "cs = xor_list idx (num_vars + 1) (num_vars + 2) @ nc @ nc'"
    and na: "na = int (length h) - 2"
    by simp_all
  have len: "int (length h) = int (length B) + int (length C)"
    by (subst many.hyps(9)) simp
  have hB: "\<bar>l\<bar> \<le> num_vars" if "l \<in> set B" for l
    using many.prems(1) [of l] that many.hyps(9) by auto
  have hC: "\<bar>l\<bar> \<le> num_vars" if "l \<in> set C" for l
    using many.prems(1) [of l] that many.hyps(9) by auto
  have bB: "\<bar>l\<bar> \<le> num_vars + 2" if "l \<in> set B" for l using hB [OF that] by simp
  have bC: "\<bar>l\<bar> \<le> num_vars + int (length B)" if "l \<in> set C" for l using hC [OF that] by simp
  have idx: "idx \<noteq> num_vars + 1" "idx \<noteq> num_vars + 2"
    using many.prems(2) many.hyps(1) by auto
  have pos: "0 < num_vars + 1" "0 < num_vars + 2" "0 < num_vars + int (length B)"
    using many.hyps(3) by simp_all
  define \<sigma>1 where "\<sigma>1 = \<sigma>(num_vars + 1 := parity B \<sigma>, num_vars + 2 := parity C \<sigma>)"
  have low1: "\<sigma>1 v = \<sigma> v" if "v \<le> num_vars \<or> num_vars + 2 < v" for v
    using that by (auto simp: \<sigma>1_def)
  have B1: "parity B \<sigma>1 = parity B \<sigma>"
    by (rule parity_cong) (use hB abs_ge_zero low1 in blast)
  have "\<sigma>1 (num_vars + 1) = parity B \<sigma>1" unfolding B1 by (simp add: \<sigma>1_def)
  from many.IH(1) [OF bB _ many.hyps(10) this]
  obtain \<sigma>2 where s2: "\<And>v. v \<le> num_vars + 2 \<or> num_vars + 2 + (int (length B) - 2) < v \<Longrightarrow> \<sigma>2 v = \<sigma>1 v"
    and sat2: "bit_string_satisfies nc \<sigma>2"
    by auto
  have C2: "parity C \<sigma>2 = parity C \<sigma>"
  proof (rule parity_cong)
    fix l assume "l \<in> set C"
    from hC [OF this] have "\<bar>l\<bar> \<le> num_vars" .
    then show "\<sigma>2 \<bar>l\<bar> = \<sigma> \<bar>l\<bar>" using s2 [of "\<bar>l\<bar>"] low1 [of "\<bar>l\<bar>"] by simp
  qed
  have "\<sigma>2 (num_vars + 2) = parity C \<sigma>2"
    unfolding C2 using s2 [of "num_vars + 2"] by (simp add: \<sigma>1_def)
  from many.IH(2) [OF bC _ many.hyps(11) this] many.hyps(7)
  obtain \<sigma>3 where s3: "\<And>v. v \<le> num_vars + int (length B) \<or>
        num_vars + int (length B) + (int (length C) - 2) < v \<Longrightarrow> \<sigma>3 v = \<sigma>2 v"
    and sat3: "bit_string_satisfies nc' \<sigma>3"
    by auto
  have agree: "\<sigma>3 v = \<sigma> v" if "v \<le> num_vars \<or> num_vars + na < v" for v
  proof -
    have "\<sigma>3 v = \<sigma>2 v" using that many.hyps(7,8) na len by (intro s3) auto
    also have "\<dots> = \<sigma>1 v" using that many.hyps(7,8) na len by (intro s2) auto
    also have "\<dots> = \<sigma> v" using that many.hyps(7,8) na len by (intro low1) auto
    finally show ?thesis .
  qed
  have v1: "\<sigma>3 (num_vars + 1) = parity B \<sigma>"
    using s3 [of "num_vars + 1"] s2 [of "num_vars + 1"] many.hyps(7) by (simp add: \<sigma>1_def)
  have v2: "\<sigma>3 (num_vars + 2) = parity C \<sigma>"
    using s3 [of "num_vars + 2"] s2 [of "num_vars + 2"] many.hyps(7) by (simp add: \<sigma>1_def)
  have v0: "\<sigma>3 idx = \<sigma> idx"
    using many.prems(2) na by (intro agree) auto
  have "\<sigma> idx = (parity B \<sigma> \<noteq> parity C \<sigma>)"
    using many.prems(4) unfolding many.hyps(9) by (simp only: parity_append)
  then have satx: "bit_string_satisfies (xor_list idx (num_vars + 1) (num_vars + 2)) \<sigma>3"
    using many.hyps(2) pos v0 v1 v2 by (simp add: satisfies_xor_list test_condition_pos)
  have "bit_string_satisfies nc \<sigma>3 = bit_string_satisfies nc \<sigma>2"
  proof (rule satisfies_cong)
    fix c l assume "c \<in> set nc" "l \<in> set c"
    from pwt_vars [OF many.hyps(7) pos(1,2) _ bB many.hyps(10) this]
    have "\<bar>l\<bar> = num_vars + 1 \<or> 0 < \<bar>l\<bar> \<and> \<bar>l\<bar> \<le> num_vars + 2 + (int (length B) - 2)"
      using many.hyps(4,9) by auto
    then show "\<sigma>3 \<bar>l\<bar> = \<sigma>2 \<bar>l\<bar>" using many.hyps(7) by (intro s3) auto
  qed
  with sat2 have "bit_string_satisfies nc \<sigma>3" by simp
  with satx sat3 have "bit_string_satisfies cs \<sigma>3" by (simp add: cs satisfies_append)
  with agree show ?case by blast
qed

text \<open>
  Claim C1. Let \<open>h\<close> be a list of \<open>k \<ge> 2\<close> literals whose variables are pairwise distinct,
  differ from the target and are at most \<open>num_vars\<close>, and let the target be a valid index:
  positive, and not one of the indices \<open>num_vars + 1, \<dots>, num_vars + (k - 2)\<close> that the call
  hands out as ancillas. (By the docstring \<open>num_vars\<close> is the number of variables that
  exist already, the ancillas being added after them; a target that exists already is
  at most \<open>num_vars\<close>.) Then \<open>pwt\<close> returns clauses \<open>cs\<close> and a count \<open>na\<close> such that an
  assignment \<open>\<sigma>\<close> can be changed on the ancillas \<open>num_vars + 1, \<dots>, num_vars + na\<close> only, so
  as to satisfy every clause, if and only if \<open>\<sigma>\<close> gives the target the XOR of the truth
  values of the literals; and every assignment satisfying the clauses gives the target
  that XOR.
\<close>

theorem pwt_parity_correct:
  assumes len: "2 \<le> length h"
    and dist: "distinct (map abs h)"
    and lits: "\<forall>l \<in> set h. l \<noteq> 0 \<and> \<bar>l\<bar> \<le> num_vars \<and> \<bar>l\<bar> \<noteq> idx"
    and idx: "0 < idx"
    and fresh: "idx \<le> num_vars \<or> num_vars + (int (length h) - 2) < idx"
  shows "\<exists>cs na. pwt h idx num_vars = Inr (cs, na) \<and>
    (\<forall>\<sigma>. (\<exists>\<sigma>'. (\<forall>v. \<not> (num_vars < v \<and> v \<le> num_vars + na) \<longrightarrow> \<sigma>' v = \<sigma> v) \<and>
                bit_string_satisfies cs \<sigma>') \<longleftrightarrow> \<sigma> idx = parity h \<sigma>) \<and>
    (\<forall>\<sigma>. bit_string_satisfies cs \<sigma> \<longrightarrow> \<sigma> idx = parity h \<sigma>)"
proof -
  have nz: "0 \<notin> set h" using lits by auto
  have bound: "\<bar>l\<bar> \<le> num_vars" if "l \<in> set h" for l using lits that by auto
  from len obtain l where l: "l \<in> set h" by (cases h) auto
  with lits have "0 < \<bar>l\<bar>" "\<bar>l\<bar> \<le> num_vars" by auto
  then have nv: "0 < num_vars" by linarith
  from pwt_returns [OF len idx nv nz]
  obtain cs where cs: "pwt h idx num_vars = Inr (cs, int (length h) - 2)" by blast
  let ?na = "int (length h) - 2"
  have sound: "\<sigma> idx = parity h \<sigma>" if "bit_string_satisfies cs \<sigma>" for \<sigma>
    using pwt_sound [OF len idx nv nz cs that] .
  have ext: "(\<exists>\<sigma>'. (\<forall>v. \<not> (num_vars < v \<and> v \<le> num_vars + ?na) \<longrightarrow> \<sigma>' v = \<sigma> v) \<and>
                bit_string_satisfies cs \<sigma>') \<longleftrightarrow> \<sigma> idx = parity h \<sigma>" for \<sigma>
  proof
    assume "\<exists>\<sigma>'. (\<forall>v. \<not> (num_vars < v \<and> v \<le> num_vars + ?na) \<longrightarrow> \<sigma>' v = \<sigma> v) \<and>
                bit_string_satisfies cs \<sigma>'"
    then obtain \<sigma>' where agree: "\<And>v. \<not> (num_vars < v \<and> v \<le> num_vars + ?na) \<Longrightarrow> \<sigma>' v = \<sigma> v"
      and sat: "bit_string_satisfies cs \<sigma>'" by blast
    have "\<sigma>' idx = parity h \<sigma>'" using sound [OF sat] .
    moreover have "\<sigma>' idx = \<sigma> idx" using fresh by (intro agree) auto
    moreover have "parity h \<sigma>' = parity h \<sigma>"
    proof (rule parity_cong)
      fix l assume "l \<in> set h"
      from bound [OF this] show "\<sigma>' \<bar>l\<bar> = \<sigma> \<bar>l\<bar>" by (intro agree) auto
    qed
    ultimately show "\<sigma> idx = parity h \<sigma>" by simp
  next
    assume "\<sigma> idx = parity h \<sigma>"
    from pwt_complete [OF len idx nv nz bound fresh cs this]
    obtain \<sigma>' where "\<forall>v. v \<le> num_vars \<or> num_vars + ?na < v \<longrightarrow> \<sigma>' v = \<sigma> v"
      and "bit_string_satisfies cs \<sigma>'" by blast
    then have "(\<forall>v. \<not> (num_vars < v \<and> v \<le> num_vars + ?na) \<longrightarrow> \<sigma>' v = \<sigma> v) \<and>
                bit_string_satisfies cs \<sigma>'" by auto
    then show "\<exists>\<sigma>'. (\<forall>v. \<not> (num_vars < v \<and> v \<le> num_vars + ?na) \<longrightarrow> \<sigma>' v = \<sigma> v) \<and>
                bit_string_satisfies cs \<sigma>'" by (rule exI [of _ \<sigma>'])
  qed
  from cs ext sound show ?thesis by blast
qed

theorem pwt_parity_correct_witness:
  "2 \<le> length [1 :: int, 2, 3] \<and> distinct (map abs [1 :: int, 2, 3]) \<and>
   list_all (\<lambda>l. l \<noteq> 0 \<and> \<bar>l\<bar> \<le> 4 \<and> \<bar>l\<bar> \<noteq> 4) [1 :: int, 2, 3] \<and> (0 :: int) < 4 \<and>
   (\<exists>cs na. pwt [1, 2, 3] 4 4 = Inr (cs, na) \<and>
    (\<forall>\<sigma>. (\<exists>\<sigma>'. (\<forall>v. \<not> (4 < v \<and> v \<le> 4 + na) \<longrightarrow> \<sigma>' v = \<sigma> v) \<and>
                bit_string_satisfies cs \<sigma>') \<longleftrightarrow> \<sigma> 4 = parity [1, 2, 3] \<sigma>) \<and>
    (\<forall>\<sigma>. bit_string_satisfies cs \<sigma> \<longrightarrow> \<sigma> 4 = parity [1, 2, 3] \<sigma>))"
proof -
  have a: "2 \<le> length [1 :: int, 2, 3]" by simp
  have b: "distinct (map abs [1 :: int, 2, 3])" by simp
  have c: "\<forall>l \<in> set [1 :: int, 2, 3]. l \<noteq> 0 \<and> \<bar>l\<bar> \<le> 4 \<and> \<bar>l\<bar> \<noteq> 4" by simp
  have d: "(0 :: int) < 4" by simp
  have e: "(4 :: int) \<le> 4 \<or> 4 + (int (length [1 :: int, 2, 3]) - 2) < 4" by simp
  have c': "list_all (\<lambda>l. l \<noteq> 0 \<and> \<bar>l\<bar> \<le> 4 \<and> \<bar>l\<bar> \<noteq> 4) [1 :: int, 2, 3]" by simp
  from pwt_parity_correct [OF a b c d e] a b c' d show ?thesis by blast
qed

text \<open>
  The condition on the target is needed. With three literals, three variables and the
  target 4, the only ancilla is the target itself, and the clauses force the third
  literal to be false: an assignment with \<open>x\<^sub>3\<close> true has no extension, whatever the
  target is.
\<close>

lemma pwt_target_among_ancillas:
  "pwt [1, 2, 3] 4 3 = Inr (xor_list 4 3 4 @ xor_list 4 1 2, 1) \<and>
   \<not> (\<exists>\<sigma>. \<sigma> 3 \<and> bit_string_satisfies (xor_list 4 3 4 @ xor_list 4 1 2) \<sigma>)"
proof -
  have a: "pwt [1, 2, 3] 4 3 = Inr (xor_list 4 3 4 @ xor_list 4 1 2, 1)" by code_simp
  have b: "\<not> bit_string_satisfies (xor_list 4 3 4 @ xor_list 4 1 2) \<sigma>" if "\<sigma> 3" for \<sigma>
    using that
    by (cases "\<sigma> 4")
       (simp_all add: bit_string_satisfies_def bit_string_or_def xor_list_def test_condition_def)
  from a b show ?thesis by blast
qed

text \<open>
  Claim C3. For a list of \<open>k \<ge> 2\<close> literals, under the preconditions of \<open>pwt\<close> (positive
  target, positive number of variables, non-zero literals), the call returns and its
  second component, the number of new ancillas, is exactly \<open>k - 2 = max(0, k - 2)\<close>:
  0, 1, 2, 3 and 5 for \<open>k\<close> = 2, 3, 4, 5 and 7.
\<close>

theorem pwt_ancilla_count:
  assumes "2 \<le> length h" and "0 < idx" and "0 < num_vars" and "0 \<notin> set h"
  shows "\<exists>cs na. pwt h idx num_vars = Inr (cs, na) \<and> na = int (length h) - 2 \<and>
    na = max 0 (int (length h) - 2)"
proof -
  from pwt_returns [OF assms]
  obtain cs where "pwt h idx num_vars = Inr (cs, int (length h) - 2)" by blast
  moreover have "int (length h) - 2 = max 0 (int (length h) - 2)" using assms(1) by simp
  ultimately show ?thesis by blast
qed

theorem pwt_ancilla_count_witness:
  "(\<exists>cs. pwt [1, 2] 3 3 = Inr (cs, 0)) \<and> (\<exists>cs. pwt [1, 2, 3] 4 4 = Inr (cs, 1)) \<and>
   (\<exists>cs. pwt [1, 2, 3, 4] 5 5 = Inr (cs, 2)) \<and> (\<exists>cs. pwt [1, 2, 3, 4, 5] 6 6 = Inr (cs, 3)) \<and>
   (\<exists>cs. pwt [1, 2, 3, 4, 5, 6, 7] 8 8 = Inr (cs, 5))"
  using pwt_ancilla_count [of "[1, 2]" 3 3] pwt_ancilla_count [of "[1, 2, 3]" 4 4]
    pwt_ancilla_count [of "[1, 2, 3, 4]" 5 5] pwt_ancilla_count [of "[1, 2, 3, 4, 5]" 6 6]
    pwt_ancilla_count [of "[1, 2, 3, 4, 5, 6, 7]" 8 8]
  by simp

section \<open>Properties of the search\<close>

lemma search_body_cases:
  "search_body oracle num (upper, b) =
     (case oracle (upper - 1) of
        Inl e \<Rightarrow> Inl e
      | Inr No_solution \<Rightarrow> Inr (upper, False)
      | Inr (Model out) \<Rightarrow>
          if out = [] then Inr (upper, False)
          else if 0 < model_weight num out \<and> model_weight num out < upper
               then Inr (model_weight num out, b)
               else Inl AssertionError)"
  by (simp add: search_body_def Let_def split: sum.splits sat_out.splits)

lemma search_body_continue:
  assumes "search_body oracle num (upper, True) = Inr (u', True)"
  shows "\<exists>out. oracle (upper - 1) = Inr (Model out) \<and> out \<noteq> [] \<and>
           u' = model_weight num out \<and> 0 < u' \<and> u' < upper"
  using assms unfolding search_body_cases
  by (auto split: sum.splits sat_out.splits if_splits)

lemma search_body_stop:
  assumes "search_body oracle num (upper, True) = Inr (u', False)"
  shows "u' = upper \<and> (oracle (upper - 1) = Inr No_solution \<or> oracle (upper - 1) = Inr (Model []))"
  using assms unfolding search_body_cases
  by (auto split: sum.splits sat_out.splits if_splits)

lemma search_loop_stop:
  assumes "search_body oracle num (upper, True) = Inr (u', False)"
  shows "search_loop oracle num (upper, True) = Some (Inr upper)"
proof -
  from search_body_stop [OF assms] have "u' = upper" by simp
  with assms show ?thesis
    by (subst search_loop.simps) (simp add: search_loop.simps [of _ _ "(upper, False)"])
qed

text \<open>The loop ends for every oracle and every starting bound.\<close>

lemma search_loop_terminates: "\<exists>r. search_loop oracle num (upper, True) = Some r"
proof (induction "nat upper" arbitrary: upper rule: less_induct)
  case less
  show ?case
  proof (cases "search_body oracle num (upper, True)")
    case (Inl e)
    then show ?thesis by (subst search_loop.simps) simp
  next
    case (Inr st)
    obtain u' b where st: "st = (u', b)" by (cases st)
    show ?thesis
    proof (cases b)
      case False
      with Inr st show ?thesis by (auto dest: search_loop_stop)
    next
      case True
      with Inr st have "0 < u'" "u' < upper" by (auto dest: search_body_continue)
      then have "nat u' < nat upper" by simp
      from less [OF this] obtain r where "search_loop oracle num (u', True) = Some r" by blast
      with Inr st True show ?thesis by (subst search_loop.simps) simp
    qed
  qed
qed

text \<open>What the loop returns was reached from the start and cannot be lowered by the oracle.\<close>

lemma search_loop_result:
  "search_loop oracle num (upper, True) = Some (Inr d) \<Longrightarrow>
   d \<le> upper \<and> (oracle (d - 1) = Inr No_solution \<or> oracle (d - 1) = Inr (Model []))"
proof (induction "nat upper" arbitrary: upper rule: less_induct)
  case less
  show ?case
  proof (cases "search_body oracle num (upper, True)")
    case (Inl e)
    with less.prems show ?thesis by (subst (asm) search_loop.simps) simp
  next
    case (Inr st)
    obtain u' b where st: "st = (u', b)" by (cases st)
    show ?thesis
    proof (cases b)
      case False
      with Inr st have "search_loop oracle num (upper, True) = Some (Inr upper)"
        by (auto dest: search_loop_stop)
      with less.prems have "d = upper" by simp
      with Inr st False show ?thesis by (auto dest: search_body_stop)
    next
      case True
      with Inr st have u: "0 < u'" "u' < upper" by (auto dest: search_body_continue)
      then have lt: "nat u' < nat upper" by simp
      from Inr st True less.prems have "search_loop oracle num (u', True) = Some (Inr d)"
        by (subst (asm) search_loop.simps) simp
      from less.hyps [OF lt this] u show ?thesis by simp
    qed
  qed
qed

text \<open>
  Claim C4. In a pass of the search loop of \<^verbatim>\<open>find_weight\<close> at the bound \<open>upper\<close>: the
  oracle is consulted at \<open>upper - 1\<close> and nowhere else; a pass that keeps the loop running
  has set the bound to the weight of the returned model, which is positive and below
  the previous bound; a model whose weight is not is an assertion failure; when the
  oracle has no solution the loop stops and returns the current bound. The loop ends
  for every oracle and every start, and what it returns is at most the start and is a
  bound below which the oracle has nothing. For binary matrices \<^verbatim>\<open>find_weight\<close> without
  \<^verbatim>\<open>both\<close> and \<^verbatim>\<open>switch\<close> is this loop from the given upper bound.
\<close>

theorem find_weight_loop:
  "(\<exists>r. search_loop oracle num (upper, True) = Some r) \<and>
   (\<forall>oracle'. oracle' (upper - 1) = oracle (upper - 1) \<longrightarrow>
      search_body oracle' num (upper, True) = search_body oracle num (upper, True)) \<and>
   (\<forall>u'. search_body oracle num (upper, True) = Inr (u', True) \<longrightarrow>
      (\<exists>out. oracle (upper - 1) = Inr (Model out) \<and> out \<noteq> [] \<and>
         u' = model_weight num out \<and> 0 < u' \<and> u' < upper)) \<and>
   (\<forall>out. oracle (upper - 1) = Inr (Model out) \<and> out \<noteq> [] \<longrightarrow>
      search_body oracle num (upper, True) =
        (if 0 < model_weight num out \<and> model_weight num out < upper
         then Inr (model_weight num out, True) else Inl AssertionError)) \<and>
   (oracle (upper - 1) = Inr No_solution \<longrightarrow>
      search_body oracle num (upper, True) = Inr (upper, False) \<and>
      search_loop oracle num (upper, True) = Some (Inr upper)) \<and>
   (\<forall>d. search_loop oracle num (upper, True) = Some (Inr d) \<longrightarrow>
      d \<le> upper \<and> (oracle (d - 1) = Inr No_solution \<or> oracle (d - 1) = Inr (Model []))) \<and>
   (\<not> np_any (x_minus_xx HX) \<and> \<not> np_any (x_minus_xx HZ) \<longrightarrow>
      find_weight sd HX HZ upper False False
        = search_loop (\<lambda>t. sd t HX HZ False) (ncols HX) (upper, True))"
proof (intro conjI allI impI)
  show "\<exists>r. search_loop oracle num (upper, True) = Some r" by (rule search_loop_terminates)
next
  fix oracle' :: "int \<Rightarrow> error + sat_out"
  assume "oracle' (upper - 1) = oracle (upper - 1)"
  then show "search_body oracle' num (upper, True) = search_body oracle num (upper, True)"
    by (simp add: search_body_cases)
next
  fix u' assume "search_body oracle num (upper, True) = Inr (u', True)"
  then show "\<exists>out. oracle (upper - 1) = Inr (Model out) \<and> out \<noteq> [] \<and>
         u' = model_weight num out \<and> 0 < u' \<and> u' < upper"
    by (rule search_body_continue)
next
  fix out assume "oracle (upper - 1) = Inr (Model out) \<and> out \<noteq> []"
  then show "search_body oracle num (upper, True) =
        (if 0 < model_weight num out \<and> model_weight num out < upper
         then Inr (model_weight num out, True) else Inl AssertionError)"
    by (simp add: search_body_cases)
next
  assume "oracle (upper - 1) = Inr No_solution"
  then show b: "search_body oracle num (upper, True) = Inr (upper, False)"
    by (simp add: search_body_cases)
  then show "search_loop oracle num (upper, True) = Some (Inr upper)"
    by (rule search_loop_stop)
next
  fix d assume "search_loop oracle num (upper, True) = Some (Inr d)"
  from search_loop_result [OF this]
  show "d \<le> upper" "oracle (d - 1) = Inr No_solution \<or> oracle (d - 1) = Inr (Model [])"
    by simp_all
next
  assume "\<not> np_any (x_minus_xx HX) \<and> \<not> np_any (x_minus_xx HZ)"
  then show "find_weight sd HX HZ upper False False
        = search_loop (\<lambda>t. sd t HX HZ False) (ncols HX) (upper, True)"
    by (simp add: find_weight_def split: option.splits sum.splits)
qed


lemma example_body:
  "search_body (\<lambda>t. example_sd t HX HZ False) 7 (9, True) = Inr (3, True)"
  "search_body (\<lambda>t. example_sd t HX HZ False) 7 (5, True) = Inr (3, True)"
  "search_body (\<lambda>t. example_sd t HX HZ False) 7 (3, True) = Inr (3, False)"
  "search_body (\<lambda>t. example_sd t HX HZ True) 7 (9, True) = Inr (7, True)"
  "search_body (\<lambda>t. example_sd t HX HZ True) 7 (7, True) = Inr (7, False)"
  "search_body (\<lambda>t. example_sd t HX HZ True) 7 (3, True) = Inr (3, False)"
  by (simp_all add: search_body_cases example_sd_def model_weight_def)

lemma search_loop_False: "search_loop oracle num (u, False) = Some (Inr u)"
  by (subst search_loop.simps) simp

lemma search_loop_True:
  "search_loop oracle num (u, True) =
     (case search_body oracle num (u, True) of
        Inl e \<Rightarrow> Some (Inl e) | Inr st' \<Rightarrow> search_loop oracle num st')"
  by (subst search_loop.simps) simp

lemma example_loop:
  "search_loop (\<lambda>t. example_sd t HX HZ False) 7 (3, True) = Some (Inr 3)"
  "search_loop (\<lambda>t. example_sd t HX HZ False) 7 (5, True) = Some (Inr 3)"
  "search_loop (\<lambda>t. example_sd t HX HZ False) 7 (9, True) = Some (Inr 3)"
  "search_loop (\<lambda>t. example_sd t HX HZ True) 7 (7, True) = Some (Inr 7)"
  "search_loop (\<lambda>t. example_sd t HX HZ True) 7 (9, True) = Some (Inr 7)"
  "search_loop (\<lambda>t. example_sd t HX HZ True) 7 (3, True) = Some (Inr 3)"
proof -
  show 3: "search_loop (\<lambda>t. example_sd t HX HZ False) 7 (3, True) = Some (Inr 3)"
    by (simp only: search_loop_True example_body sum.case search_loop_False)
  show "search_loop (\<lambda>t. example_sd t HX HZ False) 7 (5, True) = Some (Inr 3)"
    by (subst search_loop_True) (simp only: example_body sum.case 3)
  show "search_loop (\<lambda>t. example_sd t HX HZ False) 7 (9, True) = Some (Inr 3)"
    by (subst search_loop_True) (simp only: example_body sum.case 3)
  show 7: "search_loop (\<lambda>t. example_sd t HX HZ True) 7 (7, True) = Some (Inr 7)"
    by (simp only: search_loop_True example_body sum.case search_loop_False)
  show "search_loop (\<lambda>t. example_sd t HX HZ True) 7 (9, True) = Some (Inr 7)"
    by (subst search_loop_True) (simp only: example_body sum.case 7)
  show "search_loop (\<lambda>t. example_sd t HX HZ True) 7 (3, True) = Some (Inr 3)"
    by (simp only: search_loop_True example_body sum.case search_loop_False)
qed

theorem find_weight_loop_witness:
  "search_body (\<lambda>t. example_sd t example_H example_H False) 7 (5, True) = Inr (3, True) \<and>
   (3 :: int) < 5 \<and>
   example_sd (3 - 1) example_H example_H False = Inr No_solution \<and>
   search_loop (\<lambda>t. example_sd t example_H example_H False) 7 (3, True) = Some (Inr 3) \<and>
   search_loop (\<lambda>t. example_sd t example_H example_H False) 7 (5, True) = Some (Inr 3) \<and>
   \<not> np_any (x_minus_xx example_H) \<and>
   find_weight example_sd example_H example_H 5 False False = Some (Inr 3)"
proof -
  let ?o = "\<lambda>t. example_sd t example_H example_H False"
  let ?m = "[1, 2, 3, - 4, - 5, - 6, - 7] :: int list"
  have q: "?o (5 - 1) = Inr (Model ?m) \<and> ?m \<noteq> []"
    by (simp add: example_sd_def)
  have w: "model_weight 7 ?m = 3" by (simp add: model_weight_def)
  note T5 = find_weight_loop [of ?o 7 5]
  note T3 = find_weight_loop [of ?o 7 3]
  from T5 have "search_body ?o 7 (5, True) =
      (if 0 < model_weight 7 ?m \<and> model_weight 7 ?m < 5
       then Inr (model_weight 7 ?m, True) else Inl AssertionError)"
    using q by blast
  then have a: "search_body ?o 7 (5, True) = Inr (3, True)" by (simp only: w) simp
  have u: "?o (3 - 1) = Inr No_solution" by (simp add: example_sd_def)
  from T3 u have b: "search_loop ?o 7 (3, True) = Some (Inr 3)" by blast
  have c: "search_loop ?o 7 (5, True) = Some (Inr 3)" by (rule example_loop)
  have d: "(3 :: int) < 5" by simp
  have bin: "\<not> np_any (x_minus_xx example_H)"
    by (simp add: np_any_def x_minus_xx_def example_H_def)
  have n: "ncols example_H = 7" by (simp add: ncols_def example_H_def)
  from find_weight_loop [of ?o 7 5 example_H example_H example_sd] bin
  have "find_weight example_sd example_H example_H 5 False False
      = search_loop ?o (ncols example_H) (5, True)"
    by blast
  then have e: "find_weight example_sd example_H example_H 5 False False = Some (Inr 3)"
    by (simp only: n c)
  from a d u b c bin e show ?thesis by blast
qed


text \<open>
  An oracle that answers the decision problem for a least weight \<open>d\<close> on the bounds
  below \<open>p\<close>: no model below \<open>d\<close>, and from \<open>d\<close> on a model whose weight lies between
  \<open>d\<close> and the bound.
\<close>

lemma search_loop_min:
  assumes d: "0 < d"
    and below: "\<And>t. 0 \<le> t \<Longrightarrow> t < p \<Longrightarrow> t < d \<Longrightarrow> oracle t = Inr No_solution"
    and above: "\<And>t. 0 \<le> t \<Longrightarrow> t < p \<Longrightarrow> d \<le> t \<Longrightarrow>
      \<exists>m. oracle t = Inr (Model m) \<and> d \<le> model_weight num m \<and> model_weight num m \<le> t"
  shows "0 < u \<Longrightarrow> u \<le> p \<Longrightarrow> search_loop oracle num (u, True) = Some (Inr (min u d))"
proof (induction "nat u" arbitrary: u rule: less_induct)
  case less
  show ?case
  proof (cases "u - 1 < d")
    case True
    with less.prems have "oracle (u - 1) = Inr No_solution" by (intro below) auto
    then have "search_body oracle num (u, True) = Inr (u, False)"
      by (simp add: search_body_cases)
    then have "search_loop oracle num (u, True) = Some (Inr u)" by (rule search_loop_stop)
    with True show ?thesis by (simp add: min_def)
  next
    case False
    with less.prems obtain m where m: "oracle (u - 1) = Inr (Model m)"
      "d \<le> model_weight num m" "model_weight num m \<le> u - 1"
      using above [of "u - 1"] by auto
    let ?w = "model_weight num m"
    have w: "0 < ?w" "?w < u" using m d by auto
    then have "m \<noteq> []" by (auto simp: model_weight_def)
    with m w have body: "search_body oracle num (u, True) = Inr (?w, True)"
      by (simp add: search_body_cases)
    have "nat ?w < nat u" using w by simp
    from less.hyps [OF this w(1)] w less.prems
    have "search_loop oracle num (?w, True) = Some (Inr (min ?w d))" by simp
    with body have "search_loop oracle num (u, True) = Some (Inr (min ?w d))"
      by (subst search_loop.simps) simp
    moreover have "min ?w d = min u d" using m w False by (simp add: min_def)
    ultimately show ?thesis by simp
  qed
qed

text \<open>
  Claim C6. Let \<^verbatim>\<open>HX\<close> and \<^verbatim>\<open>HZ\<close> be binary, \<open>p\<close> a positive upper bound, and let
  \<^verbatim>\<open>sat_distance\<close> answer the decision problem on the bounds below \<open>p\<close> in both
  directions (least weights \<open>dZ\<close> and \<open>dX\<close>: no model below, a model of a weight between
  the least weight and the bound from there on). Then the three calls return, and
  \<^verbatim>\<open>find_weight(HX,HZ,p,both=True)\<close> is the minimum of \<^verbatim>\<open>find_weight(HX,HZ,p)\<close> and
  \<^verbatim>\<open>find_weight(HX,HZ,p,switch=True)\<close>.
\<close>

theorem find_weight_both_is_min:
  assumes binX: "\<not> np_any (x_minus_xx HX)" and binZ: "\<not> np_any (x_minus_xx HZ)"
    and p: "0 < p" and dZ: "0 < dZ" and dX: "0 < dX"
    and Z: "\<forall>t. 0 \<le> t \<and> t < p \<longrightarrow>
      (if t < dZ then sd t HX HZ False = Inr No_solution
       else \<exists>m. sd t HX HZ False = Inr (Model m) \<and>
              dZ \<le> model_weight (ncols HX) m \<and> model_weight (ncols HX) m \<le> t)"
    and X: "\<forall>t. 0 \<le> t \<and> t < p \<longrightarrow>
      (if t < dX then sd t HZ HX True = Inr No_solution
       else \<exists>m. sd t HZ HX True = Inr (Model m) \<and>
              dX \<le> model_weight (ncols HZ) m \<and> model_weight (ncols HZ) m \<le> t)"
  shows "\<exists>a b. find_weight sd HX HZ p False False = Some (Inr a) \<and>
               find_weight sd HX HZ p False True = Some (Inr b) \<and>
               find_weight sd HX HZ p True False = Some (Inr (min a b))"
proof -
  have Zb: "(\<lambda>t. sd t HX HZ False) t = Inr No_solution" if "0 \<le> t" "t < p" "t < dZ" for t
    using Z that by auto
  have Za: "\<exists>m. (\<lambda>t. sd t HX HZ False) t = Inr (Model m) \<and>
      dZ \<le> model_weight (ncols HX) m \<and> model_weight (ncols HX) m \<le> t"
    if "0 \<le> t" "t < p" "dZ \<le> t" for t
    using Z that by auto
  have Xb: "(\<lambda>t. sd t HZ HX True) t = Inr No_solution" if "0 \<le> t" "t < p" "t < dX" for t
    using X that by auto
  have Xa: "\<exists>m. (\<lambda>t. sd t HZ HX True) t = Inr (Model m) \<and>
      dX \<le> model_weight (ncols HZ) m \<and> model_weight (ncols HZ) m \<le> t"
    if "0 \<le> t" "t < p" "dX \<le> t" for t
    using X that by auto
  have pp: "p \<le> p" by simp
  have m: "0 < min p dZ" "min p dZ \<le> p" using p dZ by (simp_all add: min_def)
  have LZ: "search_loop (\<lambda>t. sd t HX HZ False) (ncols HX) (p, True) = Some (Inr (min p dZ))"
    by (rule search_loop_min [OF dZ Zb Za p pp])
  have LX: "search_loop (\<lambda>t. sd t HZ HX True) (ncols HZ) (p, True) = Some (Inr (min p dX))"
    by (rule search_loop_min [OF dX Xb Xa p pp])
  have LX2: "search_loop (\<lambda>t. sd t HZ HX True) (ncols HZ) (min p dZ, True)
      = Some (Inr (min (min p dZ) dX))"
    by (rule search_loop_min [OF dX Xb Xa m])
  have a: "find_weight sd HX HZ p False False = Some (Inr (min p dZ))"
    unfolding find_weight_def using binX binZ by (simp add: LZ)
  have b: "find_weight sd HX HZ p False True = Some (Inr (min p dX))"
    unfolding find_weight_def using binX binZ by (simp add: LX)
  have c: "find_weight sd HX HZ p True False = Some (Inr (min (min p dZ) dX))"
    unfolding find_weight_def using binX binZ by (simp add: LZ LX2)
  have e: "min (min p dZ) dX = min (min p dZ) (min p dX)" by (simp add: min_def)
  from a b c show ?thesis unfolding e by blast
qed

theorem find_weight_both_is_min_witness:
  "\<not> np_any (x_minus_xx example_H) \<and> (0 :: int) < 9 \<and>
   find_weight example_sd example_H example_H 9 False False = Some (Inr 3) \<and>
   find_weight example_sd example_H example_H 9 False True = Some (Inr 7) \<and>
   find_weight example_sd example_H example_H 9 True False = Some (Inr (min 3 7))"
proof -
  have bin: "\<not> np_any (x_minus_xx example_H)"
    by (simp add: np_any_def x_minus_xx_def example_H_def)
  have n: "ncols example_H = 7" by (simp add: ncols_def example_H_def)
  have Z: "\<forall>t. 0 \<le> t \<and> t < 9 \<longrightarrow>
      (if t < 3 then example_sd t example_H example_H False = Inr No_solution
       else \<exists>m. example_sd t example_H example_H False = Inr (Model m) \<and>
              3 \<le> model_weight (ncols example_H) m \<and> model_weight (ncols example_H) m \<le> t)"
    by (simp add: example_sd_def n model_weight_def)
  have X: "\<forall>t. 0 \<le> t \<and> t < 9 \<longrightarrow>
      (if t < 7 then example_sd t example_H example_H True = Inr No_solution
       else \<exists>m. example_sd t example_H example_H True = Inr (Model m) \<and>
              7 \<le> model_weight (ncols example_H) m \<and> model_weight (ncols example_H) m \<le> t)"
    by (simp add: example_sd_def n model_weight_def)
  have p: "(0 :: int) < 9" "(0 :: int) < 3" "(0 :: int) < 7" by simp_all
  have a: "find_weight example_sd example_H example_H 9 False False = Some (Inr 3)"
    unfolding find_weight_def using bin by (simp add: n example_loop)
  have b: "find_weight example_sd example_H example_H 9 False True = Some (Inr 7)"
    unfolding find_weight_def using bin by (simp add: n example_loop)
  from find_weight_both_is_min [of example_H example_H 9 3 7 example_sd, OF bin bin p Z X]
  obtain a' b' where
    "find_weight example_sd example_H example_H 9 False False = Some (Inr a')"
    "find_weight example_sd example_H example_H 9 False True = Some (Inr b')"
    "find_weight example_sd example_H example_H 9 True False = Some (Inr (min a' b'))"
    by blast
  with a b have "find_weight example_sd example_H example_H 9 True False = Some (Inr (min 3 7))"
    by simp
  with a b bin p(1) show ?thesis by blast
qed

section \<open>Properties of \<^verbatim>\<open>sat_distance\<close>\<close>

lemma np_any_x_minus_xx: "np_any (x_minus_xx M) = (\<not> binary M)"
proof -
  have "(x - x * x \<noteq> 0) = (\<not> (x = 0 \<or> x = 1))" for x :: int
  proof -
    have "x - x * x = x * (1 - x)" by (simp add: algebra_simps)
    then show ?thesis by auto
  qed
  then show ?thesis
    by (simp add: np_any_def x_minus_xx_def binary_def list_ex_iff list_all_iff)
qed

text \<open>
  Claim C7. When \<^verbatim>\<open>HX\<close> or \<^verbatim>\<open>HZ\<close> is not binary, or their numbers of columns differ, or
  \<^verbatim>\<open>HX @ HZ.T\<close> has an entry that is not zero modulo 2, \<^verbatim>\<open>sat_distance\<close> raises
  \<^verbatim>\<open>AssertionError\<close> and has done nothing else: whatever the services, the threshold and
  the flags are, no reduction was asked for, no clause was built and handed to a solver,
  and no solver session was opened.
\<close>

theorem sat_distance_rejects_input_first:
  assumes "\<not> binary HX \<or> \<not> binary HZ \<or> ncols HX \<noteq> ncols HZ \<or>
    np_any (mod2 (matmul HX (mat_T HZ)))"
  shows "sat_distance svc threshold HX HZ proof switch = (Inl AssertionError, [])"
  using assms by (auto simp: sat_distance_def np_any_x_minus_xx)

theorem sat_distance_rejects_input_first_witness:
  "binary H1111 \<and> binary [[1, 1, 0, 1]] \<and> ncols H1111 = ncols [[1, 1, 0, 1]] \<and>
   np_any (mod2 (matmul H1111 (mat_T [[1, 1, 0, 1]]))) \<and>
   sat_distance (services_1111 no_model no_proof (drup_says VALID)) 3 H1111 [[1, 1, 0, 1]] False False
     = (Inl AssertionError, []) \<and>
   \<not> binary [[1, 1, 2, 0]] \<and>
   sat_distance (services_1111 no_model no_proof (drup_says VALID)) 3 H1111 [[1, 1, 2, 0]] False False
     = (Inl AssertionError, [])"
proof -
  have a: "binary H1111" "binary [[1, 1, 0, 1]]" "ncols H1111 = ncols [[1, 1, 0, 1]]"
    by (simp_all add: binary_def H1111_def ncols_def)
  have b: "np_any (mod2 (matmul H1111 (mat_T [[1, 1, 0, 1]])))" by code_simp
  have c: "\<not> binary [[1, 1, 2, 0]]" by (simp add: binary_def)
  from b have "sat_distance (services_1111 no_model no_proof (drup_says VALID)) 3 H1111 [[1, 1, 0, 1]] False False
     = (Inl AssertionError, [])"
    by (intro sat_distance_rejects_input_first) simp
  moreover from c have "sat_distance (services_1111 no_model no_proof (drup_says VALID)) 3 H1111 [[1, 1, 2, 0]] False False
     = (Inl AssertionError, [])"
    by (intro sat_distance_rejects_input_first) simp
  ultimately show ?thesis using a b c by simp
qed


section \<open>The output variables of the second loop\<close>

text \<open>
  Claim C2, on \<^verbatim>\<open>HX = HZ = [[1,1,1,1]]\<close>. The first loop leaves \<^verbatim>\<open>ancillas = 7\<close>. In the second
  loop the output variable of row 0 is \<open>start_ancillas + 0 + 1 = 8\<close>, the clause \<open>[-8]\<close> is
  emitted while the count is 7, and \<open>pwt\<close> is called with the target 8 and 7 variables:
  its first ancilla is 8, the target itself (the clauses of \<open>xor(8,8,9)\<close>), and the count
  becomes 9. The clauses then force \<open>x\<^sub>1 = x\<^sub>2\<close> and \<open>x\<^sub>3 = x\<^sub>4\<close>: the vector \<open>(1,0,1,0)\<close>,
  which \<^verbatim>\<open>HX\<close> sends to zero modulo 2, satisfies them under no value of the other variables.
\<close>

theorem null_space_loop_target_is_ancilla:
  "pwt [1, 2, 3, 4] 8 7 = Inr (xor_list 8 8 9 @ xor_list 8 1 2 @ xor_list 9 3 4, 2) \<and>
   null_space_body H1111 7 0 (cs, 7)
     = Inr (cs @ [[- 8]] @ xor_list 8 8 9 @ xor_list 8 1 2 @ xor_list 9 3 4, 9) \<and>
   sat_distance_compile (services_1111 slv prf chk) 2 H1111 H1111 =
     Inr \<lparr>cnf_of = [[5, 6, 7]] @ xor_list 5 1 2 @ xor_list 6 1 3 @ xor_list 7 1 4 @ [[- 8]] @
            xor_list 8 8 9 @ xor_list 8 1 2 @ xor_list 9 3 4 @ example_atmost [1, 2, 3, 4] 2 9,
          qubits = 4, rank_z = 1, block_A = [[1], [1], [1]], reduced_Hx = H1111,
          col_perm = identity4\<rparr> \<and>
   null_vector_ok H1111 [1, 0, 1, 0] \<and>
   \<not> (\<exists>\<sigma>. \<sigma> 1 \<and> \<not> \<sigma> 2 \<and> \<sigma> 3 \<and> \<not> \<sigma> 4 \<and>
          bit_string_satisfies (xor_list 8 8 9 @ xor_list 8 1 2 @ xor_list 9 3 4) \<sigma>)"
proof -
  have a: "pwt [1, 2, 3, 4] 8 7 = Inr (xor_list 8 8 9 @ xor_list 8 1 2 @ xor_list 9 3 4, 2)"
    by code_simp
  have r: "row_literals [1, 1, 1, 1] = [1, 2, 3, 4]" by code_simp
  have b: "null_space_body H1111 7 0 (cs, 7)
     = Inr (cs @ [[- 8]] @ xor_list 8 8 9 @ xor_list 8 1 2 @ xor_list 9 3 4, 9)"
    by (simp add: null_space_body_def H1111_def r a)
  have c: "sat_distance_compile (services_1111 slv prf chk) 2 H1111 H1111 =
     Inr \<lparr>cnf_of = [[5, 6, 7]] @ xor_list 5 1 2 @ xor_list 6 1 3 @ xor_list 7 1 4 @ [[- 8]] @
            xor_list 8 8 9 @ xor_list 8 1 2 @ xor_list 9 3 4 @ example_atmost [1, 2, 3, 4] 2 9,
          qubits = 4, rank_z = 1, block_A = [[1], [1], [1]], reduced_Hx = H1111,
          col_perm = identity4\<rparr>"
    by code_simp
  have d: "null_vector_ok H1111 [1, 0, 1, 0]" by code_simp
  have e: "\<not> bit_string_satisfies (xor_list 8 8 9 @ xor_list 8 1 2 @ xor_list 9 3 4) \<sigma>"
    if "\<sigma> 1" "\<not> \<sigma> 2" "\<sigma> 3" "\<not> \<sigma> 4" for \<sigma>
    using that
    by (cases "\<sigma> 8"; cases "\<sigma> 9")
       (simp_all add: bit_string_satisfies_def bit_string_or_def xor_list_def test_condition_def)
  from a b c d e show ?thesis by blast
qed

section \<open>The session of the solver\<close>


lemma sat_distance_solve_returns:
  assumes "sat_distance_solve svc threshold proof letter c = (Inr out, log)"
  shows "log \<noteq> [] \<and> last log = Delete_solver"
  using assms
  by (auto simp: sat_distance_solve_def Let_def split: option.splits if_splits prod.splits sum.splits)


section \<open>The verdict of the proof checker\<close>

lemma check_proof_never_False: "fst (check_proof svc proof cnf) \<noteq> Inr False"
  by (simp add: check_proof_def Let_def split: option.splits sum.splits)

lemma check_proof_ignores_outcome:
  assumes "convert_proof lines = Inr proof2"
    and "drup_check_proof svc cnf proof2 = Inr outcome"
  shows "fst (check_proof svc (Some lines) cnf) = Inr True"
  using assms by (simp add: check_proof_def Let_def)

text \<open>
  Claim C8. \<^verbatim>\<open>check_proof\<close> on the formula \<open>[[1, 2]]\<close> and the proof line \<^verbatim>\<open>1 0\<close>, with a
  checker whose outcome is INVALID, returns \<^verbatim>\<open>True\<close>; and \<^verbatim>\<open>sat_distance\<close> with
  \<^verbatim>\<open>proof=True\<close>, a solver without a model and that checker prints that the proof is
  verified, deletes the session and returns \<^verbatim>\<open>False\<close> as for a verified proof.
\<close>

theorem invalid_proof_counts_as_verified:
  "check_proof (services_1111 slv prf (drup_says INVALID)) (Some [''1 0'']) [[1, 2]]
     = (Inr True, [Print ''Proof of no solution:'', Print_proof (Some [''1 0'']),
                   Drup_check [[1, 2]] [[1]]]) \<and>
   sat_distance
      (services_1111 no_model (proof_lines [''1 0'']) (drup_says INVALID)) 1 H1111 H1111
      True False
    = (Inr No_solution,
       [New_solver (constraints_1111 @ example_atmost [1, 2, 3, 4] 1 9) True, Solve, Get_proof,
        Print ''Proof of no solution:'', Print_proof (Some [''1 0'']),
        Drup_check (constraints_1111 @ example_atmost [1, 2, 3, 4] 1 9) [[1]],
        Print ''Proof of no solution verified.'', Delete_solver])"
proof -
  have a: "check_proof (services_1111 slv prf (drup_says INVALID)) (Some [''1 0'']) [[1, 2]]
     = (Inr True, [Print ''Proof of no solution:'', Print_proof (Some [''1 0'']),
                   Drup_check [[1, 2]] [[1]]])"
    by code_simp
  have b: "sat_distance
      (services_1111 no_model (proof_lines [''1 0'']) (drup_says INVALID)) 1 H1111 H1111
      True False
    = (Inr No_solution,
       [New_solver (constraints_1111 @ example_atmost [1, 2, 3, 4] 1 9) True, Solve, Get_proof,
        Print ''Proof of no solution:'', Print_proof (Some [''1 0'']),
        Drup_check (constraints_1111 @ example_atmost [1, 2, 3, 4] 1 9) [[1]],
        Print ''Proof of no solution verified.'', Delete_solver])"
    by code_simp
  from a b show ?thesis by blast
qed

section \<open>The checks of a model\<close>








end
